theory Spec2Isabelle
  imports Main "HOL-Library.AList" "HOL-Library.Multiset"
begin

section \<open>Python values, errors and built-ins used by preprocessing.py\<close>

text \<open>
  The script reads three text files line by line, keeps one five-slot list per ZIP code
  in a dictionary and writes two tab-separated files. The model keeps that shape:
  a file is the list of its lines, a raised exception is the \<open>Inl\<close> branch of a sum,
  a dictionary is an association list in insertion order, and a \<open>for\<close> loop is a
  recursion that stops at the first exception.

  Strings are lists of 8-bit characters and are read as ASCII text: a digit is one of
  \<open>0..9\<close> and white space is the ASCII white space that \<open>int()\<close> strips. The
  interpreter's optional cap on the length of decimal integer strings is not modelled.
\<close>

datatype py_error = IndexError | KeyError | ValueError | OverflowError | ZeroDivisionError

text \<open>Sequencing of computations that may raise: the first exception wins.\<close>

definition andthen :: "py_error + 'a \<Rightarrow> ('a \<Rightarrow> py_error + 'b) \<Rightarrow> py_error + 'b" where
  "andthen m f = (case m of Inl e \<Rightarrow> Inl e | Inr x \<Rightarrow> f x)"

text \<open>\<open>try: body except ValueError: pass\<close>, where \<open>st\<close> is the state the body has
  not yet changed when the exception is raised.\<close>

definition except_ValueError :: "py_error + 'a \<Rightarrow> 'a \<Rightarrow> py_error + 'a" where
  "except_ValueError m st = (case m of Inl e \<Rightarrow> (if e = ValueError then Inr st else Inl e) | Inr x \<Rightarrow> Inr x)"

text \<open>\<open>for x in xs: st = step(st, x)\<close>, abandoned at the first exception.\<close>

fun for_each :: "('s \<Rightarrow> 'a \<Rightarrow> py_error + 's) \<Rightarrow> 's \<Rightarrow> 'a list \<Rightarrow> py_error + 's" where
  "for_each step st [] = Inr st"
| "for_each step st (x # xs) = (case step st x of Inl e \<Rightarrow> Inl e | Inr st' \<Rightarrow> for_each step st' xs)"

text \<open>\<open>xs[i]\<close> for a non-negative index, and \<open>xs[-1]\<close>.\<close>

definition index :: "'a list \<Rightarrow> nat \<Rightarrow> py_error + 'a" where
  "index xs i = (if i < length xs then Inr (xs ! i) else Inl IndexError)"

definition last_item :: "'a list \<Rightarrow> py_error + 'a" where
  "last_item xs = (case xs of [] \<Rightarrow> Inl IndexError | _ # _ \<Rightarrow> Inr (last xs))"

text \<open>Dictionary subscription \<open>d[k]\<close>; \<open>k not in d\<close> is \<open>map_of d k = None\<close> and the
  store \<open>d[k] = v\<close> is \<open>AList.update k v d\<close>, which keeps the position of a key that is
  already present and appends a new one.\<close>

definition lookup :: "('k \<times> 'v) list \<Rightarrow> 'k \<Rightarrow> py_error + 'v" where
  "lookup d k = (case map_of d k of None \<Rightarrow> Inl KeyError | Some v \<Rightarrow> Inr v)"

abbreviation TAB :: char where "TAB \<equiv> CHR 0x09"
abbreviation NL :: char where "NL \<equiv> CHR 0x0A"

definition isdigit :: "char \<Rightarrow> bool" where
  "isdigit c = (c \<in> set ''0123456789'')"

definition digit_val :: "char \<Rightarrow> int" where
  "digit_val c = of_char c - 48"

definition isspace :: "char \<Rightarrow> bool" where
  "isspace c = (c \<in> set [CHR '' '', CHR 0x09, CHR 0x0A, CHR 0x0B, CHR 0x0C, CHR 0x0D])"

definition strip :: "string \<Rightarrow> string" where
  "strip s = rev (dropWhile isspace (rev (dropWhile isspace s)))"

text \<open>The digits of an integer literal after its first digit: digits, with single
  underscores allowed between two digits.\<close>

fun int_digits :: "int \<Rightarrow> string \<Rightarrow> int option" where
  "int_digits acc [] = Some acc"
| "int_digits acc [c] = (if isdigit c then Some (10 * acc + digit_val c) else None)"
| "int_digits acc (c # d # cs) =
     (if isdigit c then int_digits (10 * acc + digit_val c) (d # cs)
      else if c = CHR ''_'' \<and> isdigit d then int_digits (10 * acc + digit_val d) cs
      else None)"

definition unsigned_int :: "string \<Rightarrow> int option" where
  "unsigned_int s = (case s of [] \<Rightarrow> None
     | c # cs \<Rightarrow> if isdigit c then int_digits (digit_val c) cs else None)"

text \<open>\<open>int(s)\<close> on a string, base ten: surrounding white space is stripped, one sign is
  allowed, anything else raises ValueError.\<close>

definition py_int :: "string \<Rightarrow> py_error + int" where
  "py_int s =
     (case strip s of
        [] \<Rightarrow> Inl ValueError
      | c # cs \<Rightarrow>
          if c = CHR ''-'' then (case unsigned_int cs of None \<Rightarrow> Inl ValueError | Some n \<Rightarrow> Inr (- n))
          else if c = CHR ''+'' then (case unsigned_int cs of None \<Rightarrow> Inl ValueError | Some n \<Rightarrow> Inr n)
          else (case unsigned_int (c # cs) of None \<Rightarrow> Inl ValueError | Some n \<Rightarrow> Inr n))"

text \<open>\<open>str(n)\<close> on an integer.\<close>

function str_digits :: "int \<Rightarrow> string" where
  "str_digits n = (if n < 10 then [char_of (48 + n)] else str_digits (n div 10) @ [char_of (48 + n mod 10)])"
  by pat_completeness auto
termination
  by (relation "measure nat") auto

declare str_digits.simps [simp del]

definition str_int :: "int \<Rightarrow> string" where
  "str_int i = (if i < 0 then CHR ''-'' # str_digits (- i) else str_digits i)"

text \<open>\<open>s.split(d)\<close> for a one-character separator: \<open>cur\<close> is the field being read.\<close>

fun split_on :: "char \<Rightarrow> string \<Rightarrow> string \<Rightarrow> string list" where
  "split_on d cur [] = [cur]"
| "split_on d cur (c # cs) = (if c = d then cur # split_on d [] cs else split_on d (cur @ [c]) cs)"

definition str_split :: "char \<Rightarrow> string \<Rightarrow> string list" where
  "str_split d s = split_on d [] s"

text \<open>\<open>re.findall("[...]+", s)\<close> for a pattern that is one character class repeated:
  the maximal runs of characters of the class, left to right. \<open>cur\<close> is the run being
  read.\<close>

fun runs :: "(char \<Rightarrow> bool) \<Rightarrow> string \<Rightarrow> string \<Rightarrow> string list" where
  "runs p cur [] = (if cur = [] then [] else [cur])"
| "runs p cur (c # cs) =
     (if p c then runs p (cur @ [c]) cs
      else (if cur = [] then [] else [cur]) @ runs p [] cs)"

definition findall_class :: "(char \<Rightarrow> bool) \<Rightarrow> string \<Rightarrow> string list" where
  "findall_class p s = runs p [] s"

text \<open>The class \<open>[-.\d]\<close>.\<close>

definition coord_char :: "char \<Rightarrow> bool" where
  "coord_char c = (c = CHR ''-'' \<or> c = CHR ''.'' \<or> isdigit c)"

subsection \<open>Floating point as a parameter\<close>

text \<open>
  The script uses three float operations of the interpreter: \<open>float(s)\<close> on a string,
  \<open>str(x)\<close> on a float and true division \<open>a / b\<close> of two integers. They are not code of
  the repository, so the model takes them as a parameter: a record of the three
  operations over a type \<open>'f\<close> of float values.
\<close>

record 'f float_ops =
  py_float :: "string \<Rightarrow> py_error + 'f"
  float_str :: "'f \<Rightarrow> string"
  truediv :: "int \<Rightarrow> int \<Rightarrow> py_error + 'f"

datatype 'f pyval = PInt int | PFloat 'f

fun str_pyval :: "'f float_ops \<Rightarrow> 'f pyval \<Rightarrow> string" where
  "str_pyval F (PInt i) = str_int i"
| "str_pyval F (PFloat x) = float_str F x"

section \<open>Common functions\<close>

text \<open>\<open>point_to_coords\<close>: \<open>s = re.findall("[-.\d]+", point)\<close>, then
  \<open>(float(s[1]), float(s[0]))\<close>, evaluated left to right.\<close>

definition point_to_coords :: "'f float_ops \<Rightarrow> string \<Rightarrow> py_error + ('f \<times> 'f)" where
  "point_to_coords F point =
     (let s = findall_class coord_char point in
      andthen (index s 1) (\<lambda>s1.
      andthen (py_float F s1) (\<lambda>la.
      andthen (index s 0) (\<lambda>s0.
      andthen (py_float F s0) (\<lambda>lo.
      Inr (la, lo))))))"

section \<open>The Chicago pipeline\<close>

definition POP_HEADER :: string where
  "POP_HEADER = ''id'' @ [TAB] @ ''name'' @ [TAB] @ ''lat'' @ [TAB] @ ''lon'' @ [TAB] @ ''pop'' @ [TAB]
     @ ''vacc'' @ [TAB] @ ''adi'' @ [TAB] @ [NL]"

definition FAC_HEADER :: string where
  "FAC_HEADER = ''id'' @ [TAB] @ ''name'' @ [TAB] @ ''lat'' @ [TAB] @ ''lon'' @ [TAB] @ ''cap'' @ [TAB] @ [NL]"

text \<open>
  \<open>pop[zc]\<close> is a list of five slots, created as \<open>[0, 0, 0, 0, 0]\<close>. Slots 0 and 1
  receive floats, slot 4 stays the integer 0 or receives a float, and slots 2 and 3
  only ever hold integers (\<open>max\<close> and \<open>+=\<close> of integers). The record names the slots
  in the order of the list.
\<close>

record 'f poprec =
  slot_lat :: "'f pyval"
  slot_lon :: "'f pyval"
  slot_pop :: int
  slot_vacc :: int
  slot_adi :: "'f pyval"

type_synonym 'f popdict = "(int \<times> 'f poprec) list"

text \<open>The dictionary \<open>adi\<close>: per ZIP code the pair \<open>[sum, count]\<close>.\<close>

type_synonym adidict = "(int \<times> (int \<times> int)) list"

definition new_entry :: "'f poprec" where
  "new_entry = \<lparr>slot_lat = PInt 0, slot_lon = PInt 0, slot_pop = 0, slot_vacc = 0, slot_adi = PInt 0\<rparr>"

text \<open>One iteration of the loop over the case file (lines 70 to 85).\<close>

definition case_step :: "'f float_ops \<Rightarrow> 'f popdict \<Rightarrow> string \<Rightarrow> py_error + 'f popdict" where
  "case_step F pop line =
     andthen (index line 0) (\<lambda>c.
       if \<not> isdigit c then Inr pop
       else
         let s = str_split CHR '','' line in
         andthen (index s 0) (\<lambda>s0.
         andthen (py_int s0) (\<lambda>zc.
         let pop1 = (if map_of pop zc = None then AList.update zc new_entry pop else pop) in
         andthen (last_item s) (\<lambda>sl.
         andthen (point_to_coords F sl) (\<lambda>(la, lo).
         andthen (lookup pop1 zc) (\<lambda>r.
         let pop2 = AList.update zc (r\<lparr>slot_lat := PFloat la, slot_lon := PFloat lo\<rparr>) pop1 in
         andthen (lookup pop2 zc) (\<lambda>r2.
         andthen (index s 18) (\<lambda>s18.
         andthen (py_int s18) (\<lambda>v.
         Inr (AList.update zc (r2\<lparr>slot_pop := max (slot_pop r2) v\<rparr>) pop2))))))))))"

text \<open>One iteration of the loop over the vaccination file (lines 90 to 103). In
  \<open>pop[zc][3] += int(s[4])\<close> the subscription \<open>pop[zc]\<close> is evaluated before
  \<open>int(s[4])\<close>; only ValueError is caught.\<close>

definition vacc_step :: "'f popdict \<Rightarrow> string \<Rightarrow> py_error + 'f popdict" where
  "vacc_step pop line =
     andthen (index line 0) (\<lambda>c.
       if \<not> isdigit c then Inr pop
       else
         let s = str_split CHR '','' line in
         andthen (index s 0) (\<lambda>s0.
         andthen (py_int s0) (\<lambda>zc.
         except_ValueError
           (andthen (lookup pop zc) (\<lambda>r.
            andthen (index s 4) (\<lambda>s4.
            andthen (py_int s4) (\<lambda>v.
            Inr (AList.update zc (r\<lparr>slot_vacc := slot_vacc r + v\<rparr>) pop)))))
           pop)))"

text \<open>One iteration of the loop over the ADI file (lines 111 to 129).\<close>

definition adi_step :: "'f popdict \<Rightarrow> adidict \<Rightarrow> string \<Rightarrow> py_error + adidict" where
  "adi_step pop adi line =
     (let s = str_split CHR '','' (filter (\<lambda>c. c \<noteq> CHR 0x22) line) in
      andthen (index s 0) (\<lambda>s0.
      andthen (index s0 0) (\<lambda>c.
        if \<not> isdigit c then Inr adi
        else
          andthen (py_int (take 5 s0)) (\<lambda>zc.
            if map_of pop zc = None then Inr adi
            else
              except_ValueError
                (andthen (lookup adi zc) (\<lambda>(t, n).
                 andthen (index s 4) (\<lambda>s4.
                 andthen (py_int s4) (\<lambda>v.
                 Inr (AList.update zc (t + v, n + 1) adi)))))
                adi))))"

text \<open>One iteration of the averaging loop (lines 132 to 134).\<close>

definition mean_step :: "'f float_ops \<Rightarrow> adidict \<Rightarrow> 'f popdict \<Rightarrow> int \<Rightarrow> py_error + 'f popdict" where
  "mean_step F adi pop zc =
     andthen (lookup adi zc) (\<lambda>(t, n).
       if n > 0 then
         andthen (truediv F t n) (\<lambda>q.
         andthen (lookup pop zc) (\<lambda>r.
         Inr (AList.update zc (r\<lparr>slot_adi := PFloat q\<rparr>) pop)))
       else Inr pop)"

text \<open>The dictionary \<open>pop\<close> when the output is written (lines 64 to 134); the three
  arguments after \<open>F\<close> are the lines of the case, vaccination and ADI files.\<close>

definition chicago_pop :: "'f float_ops \<Rightarrow> string list \<Rightarrow> string list \<Rightarrow> string list \<Rightarrow> py_error + 'f popdict" where
  "chicago_pop F case_lines vacc_lines adi_lines =
     andthen (for_each (case_step F) [] case_lines) (\<lambda>pop1.
     andthen (for_each vacc_step pop1 vacc_lines) (\<lambda>pop2.
     let adi0 = map (\<lambda>zc. (zc, (0, 0))) (map fst pop2) in
     andthen (for_each (adi_step pop2) adi0 adi_lines) (\<lambda>adi.
     for_each (mean_step F adi) pop2 (map fst pop2))))"

text \<open>The rows of the population file in the order they are written (lines 139 to
  144): \<open>i\<close>, \<open>sk[i]\<close> and \<open>pop[sk[i]]\<close> for \<open>sk = sorted(pop.keys())\<close>.\<close>

definition pop_rows :: "'f popdict \<Rightarrow> py_error + (nat \<times> int \<times> 'f poprec) list" where
  "pop_rows pop =
     (let sk = sort (map fst pop) in
      for_each (\<lambda>rows i.
          andthen (index sk i) (\<lambda>zc.
          andthen (lookup pop zc) (\<lambda>r.
          Inr (rows @ [(i, zc, r)]))))
        [] [0..<length sk])"

definition items :: "'f poprec \<Rightarrow> 'f pyval list" where
  "items r = [slot_lat r, slot_lon r, PInt (slot_pop r), PInt (slot_vacc r), slot_adi r]"

text \<open>The text of one row: \<open>str(i) + '\t' + str(sk[i]) + '\t'\<close>, then every item
  followed by a tab, then the newline added by \<open>f.write(line + '\n')\<close>.\<close>

definition pop_line :: "'f float_ops \<Rightarrow> nat \<times> int \<times> 'f poprec \<Rightarrow> string" where
  "pop_line F row =
     (case row of (i, zc, r) \<Rightarrow>
        str_int (int i) @ [TAB] @ str_int zc @ [TAB]
          @ concat (map (\<lambda>item. str_pyval F item @ [TAB]) (items r)) @ [NL])"

definition chicago_rows :: "'f float_ops \<Rightarrow> string list \<Rightarrow> string list \<Rightarrow> string list
    \<Rightarrow> py_error + (nat \<times> int \<times> 'f poprec) list" where
  "chicago_rows F case_lines vacc_lines adi_lines =
     andthen (chicago_pop F case_lines vacc_lines adi_lines) pop_rows"

text \<open>\<open>process_chicago\<close>: the contents of the population file and of the facility
  file, or the exception that ends the run before the first file is opened.\<close>

definition process_chicago :: "'f float_ops \<Rightarrow> string list \<Rightarrow> string list \<Rightarrow> string list
    \<Rightarrow> py_error + (string \<times> string)" where
  "process_chicago F case_lines vacc_lines adi_lines =
     andthen (chicago_rows F case_lines vacc_lines adi_lines) (\<lambda>rows.
     Inr (POP_HEADER @ concat (map (pop_line F) rows), FAC_HEADER))"

section \<open>What a source file says about a ZIP code\<close>

text \<open>The tests and conversions the loops apply to a line, named so that the
  theorems can speak about the rows of a source file.\<close>

definition is_data :: "string \<Rightarrow> bool" where
  "is_data line = (case line of [] \<Rightarrow> False | c # _ \<Rightarrow> isdigit c)"

definition column :: "nat \<Rightarrow> string \<Rightarrow> py_error + string" where
  "column i line = index (str_split CHR '','' line) i"

definition row_code :: "string \<Rightarrow> py_error + int" where
  "row_code line = andthen (column 0 line) py_int"

definition case_count :: "string \<Rightarrow> py_error + int" where
  "case_count line = andthen (column 18 line) py_int"

definition case_coords :: "'f float_ops \<Rightarrow> string \<Rightarrow> py_error + ('f \<times> 'f)" where
  "case_coords F line = andthen (last_item (str_split CHR '','' line)) (point_to_coords F)"

definition vacc_count :: "string \<Rightarrow> py_error + int" where
  "vacc_count line = andthen (column 4 line) py_int"

text \<open>The fields of a line of the ADI file, which are split after the quote
  characters are removed.\<close>

definition adi_fields :: "string \<Rightarrow> string list" where
  "adi_fields line = str_split CHR '','' (filter (\<lambda>c. c \<noteq> CHR 0x22) line)"

definition adi_is_data :: "string \<Rightarrow> bool" where
  "adi_is_data line = (case adi_fields line of (c # _) # _ \<Rightarrow> isdigit c | _ \<Rightarrow> False)"

definition adi_code :: "string \<Rightarrow> py_error + int" where
  "adi_code line = andthen (index (adi_fields line) 0) (\<lambda>s0. py_int (take 5 s0))"

definition adi_value :: "string \<Rightarrow> py_error + int" where
  "adi_value line = andthen (index (adi_fields line) 4) py_int"

text \<open>\<open>pop[zc]\<close> as a case row finds it after line 81: the stored list, or the new
  list of zeros.\<close>

definition entry :: "'f popdict \<Rightarrow> int \<Rightarrow> 'f poprec" where
  "entry pop zc = (case map_of pop zc of None \<Rightarrow> new_entry | Some r \<Rightarrow> r)"

text \<open>The results of the conversions that succeed, in order.\<close>

definition oks :: "('a \<Rightarrow> py_error + 'b) \<Rightarrow> 'a list \<Rightarrow> 'b list" where
  "oks f xs = concat (map (\<lambda>x. case f x of Inl e \<Rightarrow> [] | Inr y \<Rightarrow> [y]) xs)"

text \<open>The data rows of a file whose column 0 converts to the code \<open>zc\<close>, and the
  codes of all data rows.\<close>

definition rows_of :: "int \<Rightarrow> string list \<Rightarrow> string list" where
  "rows_of zc lines = filter (\<lambda>line. is_data line \<and> row_code line = Inr zc) lines"

definition case_codes :: "string list \<Rightarrow> int list" where
  "case_codes lines = oks row_code (filter is_data lines)"

text \<open>The data rows of the ADI file whose first five characters of column 0
  convert to the code \<open>zc\<close>.\<close>

definition adi_rows_of :: "int \<Rightarrow> string list \<Rightarrow> string list" where
  "adi_rows_of zc lines = filter (\<lambda>line. adi_is_data line \<and> adi_code line = Inr zc) lines"

section \<open>Invariants of the dictionary\<close>

text \<open>What holds of the dictionary \<open>pop\<close> after the loop over the case rows
  \<open>cf\<close>.\<close>

definition case_inv :: "'f float_ops \<Rightarrow> string list \<Rightarrow> 'f popdict \<Rightarrow> bool" where
  "case_inv F cf pop \<longleftrightarrow>
     distinct (map fst pop) \<and> set (map fst pop) = set (case_codes cf) \<and>
     (\<forall>zc r. map_of pop zc = Some r \<longrightarrow>
        slot_pop r = Max (insert 0 (set (oks case_count (rows_of zc cf)))) \<and>
        slot_vacc r = 0 \<and> slot_adi r = PInt 0 \<and>
        (\<exists>la lo. case_coords F (last (rows_of zc cf)) = Inr (la, lo)
            \<and> slot_lat r = PFloat la \<and> slot_lon r = PFloat lo))"

text \<open>What holds of the dictionary \<open>pop\<close> when the population file is written.\<close>

definition final_inv :: "'f float_ops \<Rightarrow> string list \<Rightarrow> string list \<Rightarrow> string list \<Rightarrow> 'f popdict \<Rightarrow> bool" where
  "final_inv F cf vf af pop \<longleftrightarrow>
     distinct (map fst pop) \<and> set (map fst pop) = set (case_codes cf) \<and>
     (\<forall>zc r. map_of pop zc = Some r \<longrightarrow>
        slot_pop r = Max (insert 0 (set (oks case_count (rows_of zc cf)))) \<and>
        slot_vacc r = sum_list (oks vacc_count (rows_of zc vf)) \<and>
        (oks adi_value (adi_rows_of zc af) = [] \<longrightarrow> slot_adi r = PInt 0) \<and>
        (oks adi_value (adi_rows_of zc af) \<noteq> [] \<longrightarrow>
           (\<exists>q. truediv F (sum_list (oks adi_value (adi_rows_of zc af)))
                    (int (length (oks adi_value (adi_rows_of zc af)))) = Inr q
              \<and> slot_adi r = PFloat q)) \<and>
        (\<exists>la lo. case_coords F (last (rows_of zc cf)) = Inr (la, lo)
            \<and> slot_lat r = PFloat la \<and> slot_lon r = PFloat lo))"

section \<open>A decimal stand-in for the float operations\<close>

text \<open>
  Examples need an instance of the float parameter. \<open>dec_ops\<close> computes with decimal
  numbers \<open>(negative, m, k)\<close>, standing for \<open>m / 10 ^ k\<close> with a sign (\<open>m\<close> is not negative), instead of binary
  doubles. It reads the numerals the pattern \<open>[-.\d]+\<close> can produce and prints them as
  \<open>str\<close> prints a float in positional notation; on numerals of up to 15 significant
  digits this is what the interpreter prints as well. Division is rounded to 16
  decimal places. The instance is used in examples only; every theorem about the
  pipeline holds for any operations \<open>F\<close>.
\<close>

type_synonym dec = "bool \<times> int \<times> nat"

fun dec_norm :: "int \<Rightarrow> nat \<Rightarrow> int \<times> nat" where
  "dec_norm m 0 = (m, 0)"
| "dec_norm m (Suc k) = (if m mod 10 = 0 then dec_norm (m div 10) k else (m, Suc k))"

definition digits_val :: "string \<Rightarrow> int" where
  "digits_val s = foldl (\<lambda>a c. 10 * a + digit_val c) 0 s"

definition dec_unsigned :: "bool \<Rightarrow> string \<Rightarrow> py_error + dec" where
  "dec_unsigned neg u =
     (let ip = takeWhile isdigit u; r = dropWhile isdigit u;
          fp = (case r of [] \<Rightarrow> Some []
                | c # cs \<Rightarrow> if c = CHR ''.'' \<and> list_all isdigit cs then Some cs else None)
      in case fp of
           None \<Rightarrow> Inl ValueError
         | Some fd \<Rightarrow>
             if ip = [] \<and> fd = [] then Inl ValueError
             else (case dec_norm (digits_val (ip @ fd)) (length fd) of (m, k) \<Rightarrow> Inr (neg, m, k)))"

definition dec_of_str :: "string \<Rightarrow> py_error + dec" where
  "dec_of_str s =
     (case strip s of
        [] \<Rightarrow> Inl ValueError
      | c # cs \<Rightarrow>
          if c = CHR ''-'' then dec_unsigned True cs
          else if c = CHR ''+'' then dec_unsigned False cs
          else dec_unsigned False (c # cs))"

fun pad_digits :: "nat \<Rightarrow> int \<Rightarrow> string" where
  "pad_digits 0 m = []"
| "pad_digits (Suc k) m = pad_digits k (m div 10) @ [char_of (48 + m mod 10)]"

definition dec_str :: "dec \<Rightarrow> string" where
  "dec_str x =
     (case x of (neg, m, k) \<Rightarrow>
        (if neg then ''-'' else []) @ str_digits (m div 10 ^ k) @ ''.''
          @ (if k = 0 then ''0'' else pad_digits k (m mod 10 ^ k)))"

definition dec_div :: "int \<Rightarrow> int \<Rightarrow> py_error + dec" where
  "dec_div a b =
     (if b = 0 then Inl ZeroDivisionError
      else (case dec_norm ((\<bar>a\<bar> * 10 ^ 16 + \<bar>b\<bar> div 2) div \<bar>b\<bar>) 16 of
              (m, k) \<Rightarrow> Inr ((a < 0) \<noteq> (b < 0) \<and> a \<noteq> 0, m, k)))"

definition dec_ops :: "dec float_ops" where
  "dec_ops = \<lparr>py_float = dec_of_str, float_str = dec_str, truediv = dec_div\<rparr>"

subsection \<open>Sample files\<close>

text \<open>Sample files for the examples: a case file with a header and three rows for
  two ZIP codes, a vaccination file with one row whose column 4 is empty, an ADI file with
  a header, a value that is not a number and a sub-code of an unknown ZIP code; and the
  texts of the two files they produce with the decimal stand-in.\<close>

definition sample_cases :: "string list" where
  "sample_cases =
    [''ZIP Code,Week Number,Week Start,Week End,Cases'' @ [NL],
     ''60602,10,a,b,c,d,e,f,g,h,i,j,k,l,m,n,o,p,20,r,POINT (-87.63 41.88)'' @ [NL],
     ''60601,10,a,b,c,d,e,f,g,h,i,j,k,l,m,n,o,p,18,r,POINT (-87.62 41.88)'' @ [NL],
     ''60601,11,a,b,c,d,e,f,g,h,i,j,k,l,m,n,o,p,25,r,POINT (-87.61 41.89)'' @ [NL]]"

definition sample_vacc :: "string list" where
  "sample_vacc =
    [''Zip Code,Date,Doses,First,Cumulative'' @ [NL],
     ''60601,01/01/2021,5,3,100'' @ [NL],
     ''60602,01/01/2021,2,1,'' @ [NL],
     ''60601,01/02/2021,6,4,50'' @ [NL]]"

definition sample_adi :: "string list" where
  "sample_adi =
    [[CHR 0x22] @ ''ZIP_4'' @ [CHR 0x22] @ '',TYPE,X,Y,ADI_NATRANK'' @ [NL],
     [CHR 0x22] @ ''606011234'' @ [CHR 0x22] @ '',a,b,c,30'' @ [NL],
     [CHR 0x22] @ ''606011235'' @ [CHR 0x22] @ '',a,b,c,45'' @ [NL],
     [CHR 0x22] @ ''606019999'' @ [CHR 0x22] @ '',a,b,c,GQ'' @ [NL],
     [CHR 0x22] @ ''606991234'' @ [CHR 0x22] @ '',a,b,c,50'' @ [NL]]"

definition sample_pop_text :: string where
  "sample_pop_text =
     ''id'' @ [TAB] @ ''name'' @ [TAB] @ ''lat'' @ [TAB] @ ''lon'' @ [TAB] @ ''pop'' @ [TAB]
       @ ''vacc'' @ [TAB] @ ''adi'' @ [TAB, NL]
       @ ''0'' @ [TAB] @ ''60601'' @ [TAB] @ ''41.89'' @ [TAB] @ ''-87.61'' @ [TAB]
       @ ''25'' @ [TAB] @ ''150'' @ [TAB] @ ''37.5'' @ [TAB, NL]
       @ ''1'' @ [TAB] @ ''60602'' @ [TAB] @ ''41.88'' @ [TAB] @ ''-87.63'' @ [TAB]
       @ ''20'' @ [TAB] @ ''0'' @ [TAB] @ ''0'' @ [TAB, NL]"

definition sample_fac_text :: string where
  "sample_fac_text = ''id'' @ [TAB] @ ''name'' @ [TAB] @ ''lat'' @ [TAB] @ ''lon'' @ [TAB] @ ''cap'' @ [TAB, NL]"

section \<open>Lemmas about the built-ins\<close>

lemma andthen_simps [simp]:
  "andthen (Inl e) f = Inl e"
  "andthen (Inr x) f = f x"
  by (simp_all add: andthen_def)

lemma runs_class_prefix:
  "\<forall>c\<in>set xs. p c \<Longrightarrow> runs p cur (xs @ ys) = runs p (cur @ xs) ys"
  by (induction xs arbitrary: cur) auto

lemma runs_nonclass_prefix:
  "\<forall>c\<in>set xs. \<not> p c \<Longrightarrow> runs p [] (xs @ ys) = runs p [] ys"
  by (induction xs) auto


lemma findall_point:
  assumes "lon \<noteq> []" "lat \<noteq> []" "\<forall>c\<in>set lon. coord_char c" "\<forall>c\<in>set lat. coord_char c"
  shows "findall_class coord_char (''POINT ('' @ lon @ '' '' @ lat @ '')'') = [lon, lat]"
proof -
  have pre: "\<forall>c\<in>set ''POINT (''. \<not> coord_char c"
    by (simp add: coord_char_def isdigit_def)
  have sp: "\<not> coord_char CHR '' ''" and cl: "\<not> coord_char CHR '')''"
    by (simp_all add: coord_char_def isdigit_def)
  have "runs coord_char [] (''POINT ('' @ (lon @ '' '' @ lat @ '')''))
      = runs coord_char [] (lon @ ('' '' @ lat @ '')''))"
    using pre by (rule runs_nonclass_prefix)
  also have "\<dots> = runs coord_char ([] @ lon) ('' '' @ lat @ '')'')"
    using assms(3) by (rule runs_class_prefix)
  also have "\<dots> = [lon] @ runs coord_char [] (lat @ '')'')"
    using assms(1) sp by simp
  also have "runs coord_char [] (lat @ '')'') = runs coord_char ([] @ lat) '')''"
    using assms(4) by (rule runs_class_prefix)
  also have "\<dots> = [lat]"
    using assms(2) cl by simp
  finally show ?thesis by (simp add: findall_class_def)
qed

section \<open>The coordinate extractor\<close>

text \<open>
  C1. On a geometry string \<open>POINT (LON LAT)\<close>, where \<open>LON\<close> and \<open>LAT\<close> are non-empty
  strings of signs, points and digits that \<open>float\<close> accepts, the pattern finds exactly
  the two substrings \<open>LON\<close> and \<open>LAT\<close>, and \<open>point_to_coords\<close> returns the float of
  the second followed by the float of the first: latitude, then longitude.
\<close>

theorem point_to_coords_well_formed:
  assumes "lon \<noteq> []" "lat \<noteq> []" "\<forall>c\<in>set lon. coord_char c" "\<forall>c\<in>set lat. coord_char c"
    and "py_float F lat = Inr a" "py_float F lon = Inr b"
  shows "findall_class coord_char (''POINT ('' @ lon @ '' '' @ lat @ '')'') = [lon, lat]
       \<and> point_to_coords F (''POINT ('' @ lon @ '' '' @ lat @ '')'') = Inr (a, b)"
  using findall_point[OF assms(1-4)] assms(5,6)
  by (simp add: point_to_coords_def index_def)

text \<open>The example of the specification, with the decimal stand-in: the string
  \<open>POINT (-87.65 41.85)\<close> gives the pair that prints as 41.85 and -87.65.\<close>

theorem point_to_coords_well_formed_witness:
  "point_to_coords dec_ops ''POINT (-87.65 41.85)'' = Inr ((False, 4185, 2), (True, 8765, 2))
   \<and> float_str dec_ops (False, 4185, 2) = ''41.85'' \<and> float_str dec_ops (True, 8765, 2) = ''-87.65''"
proof -
  have a: "py_float dec_ops ''41.85'' = Inr (False, 4185, 2)" by code_simp
  have b: "py_float dec_ops ''-87.65'' = Inr (True, 8765, 2)" by code_simp
  have c: "\<forall>c\<in>set ''-87.65''. coord_char c" by (simp add: coord_char_def isdigit_def)
  have d: "\<forall>c\<in>set ''41.85''. coord_char c" by (simp add: coord_char_def isdigit_def)
  have e: "float_str dec_ops (False, 4185, 2) = ''41.85''" by code_simp
  have f: "float_str dec_ops (True, 8765, 2) = ''-87.65''" by code_simp
  from point_to_coords_well_formed[of "''-87.65''" "''41.85''" dec_ops, OF _ _ c d a b] e f
  show ?thesis by simp
qed

section \<open>Lemmas about the loops\<close>

lemma andthen_Inr_iff: "andthen m f = Inr y \<longleftrightarrow> (\<exists>x. m = Inr x \<and> f x = Inr y)"
  by (cases m) auto

lemma for_each_append:
  "for_each step st (xs @ ys) = andthen (for_each step st xs) (\<lambda>st'. for_each step st' ys)"
  by (induction xs arbitrary: st) (auto split: sum.splits)

lemma for_each_snoc:
  "for_each step st (xs @ [x]) = andthen (for_each step st xs) (\<lambda>st'. step st' x)"
  by (cases "for_each step st xs") (auto simp: for_each_append split: sum.splits)

lemma split_on_nonempty: "split_on d cur s \<noteq> []"
  by (induction s arbitrary: cur) auto

lemma str_split_nonempty: "str_split d s \<noteq> []"
  by (simp add: str_split_def split_on_nonempty)

lemma index_0_split: "index (str_split d s) 0 = Inr (hd (str_split d s))"
  using str_split_nonempty[of d s] by (cases "str_split d s") (auto simp: index_def)

lemma last_item_split: "last_item (str_split d s) = Inr (last (str_split d s))"
  using str_split_nonempty[of d s] by (cases "str_split d s") (auto simp: last_item_def)

lemma py_int_error: "py_int s = Inl e \<Longrightarrow> e = ValueError"
  by (auto simp: py_int_def split: list.splits if_splits option.splits)

lemma index_error: "index xs i = Inl e \<Longrightarrow> e = IndexError"
  by (auto simp: index_def split: if_splits)

lemma lookup_update_same [simp]: "lookup (AList.update k v d) k = Inr v"
  by (simp add: lookup_def update_conv')

lemma lookup_eq: "lookup d k = (case map_of d k of None \<Rightarrow> Inl KeyError | Some v \<Rightarrow> Inr v)"
  by (simp add: lookup_def)

lemma index_Cons_0 [simp]: "index (c # cs) 0 = Inr c"
  by (simp add: index_def)

lemma index_Nil [simp]: "index [] i = Inl IndexError"
  by (simp add: index_def)

lemma case_step_eq:
  "case_step F pop line =
     (case line of [] \<Rightarrow> Inl IndexError
      | c # _ \<Rightarrow>
          if \<not> isdigit c then Inr pop
          else andthen (row_code line) (\<lambda>zc.
               andthen (case_coords F line) (\<lambda>(la, lo).
               andthen (case_count line) (\<lambda>v.
               Inr (AList.update zc
                  ((entry pop zc)\<lparr>slot_lat := PFloat la, slot_lon := PFloat lo,
                      slot_pop := max (slot_pop (entry pop zc)) v\<rparr>) pop)))))"
proof (cases line)
  case Nil
  then show ?thesis by (simp add: case_step_def)
next
  case (Cons c cs)
  show ?thesis
  proof (cases "isdigit c")
    case False
    with Cons show ?thesis by (simp add: case_step_def)
  next
    case True
    have "case_step F pop line = 
       andthen (row_code line) (\<lambda>zc.
               andthen (case_coords F line) (\<lambda>(la, lo).
               andthen (case_count line) (\<lambda>v.
               Inr (AList.update zc
                  ((entry pop zc)\<lparr>slot_lat := PFloat la, slot_lon := PFloat lo,
                      slot_pop := max (slot_pop (entry pop zc)) v\<rparr>) pop))))"
      using Cons True
      apply (simp add: case_step_def row_code_def column_def case_coords_def
          case_count_def index_0_split last_item_split Let_def)
      apply (cases "py_int (hd (str_split CHR '','' (c # cs)))"; simp)
      apply (cases "point_to_coords F (last (str_split CHR '','' (c # cs)))"; simp)
      apply (cases "index (str_split CHR '','' (c # cs)) 18"; simp add: entry_def lookup_eq update_conv' split: option.splits prod.splits)
      done
    with Cons True show ?thesis by simp
  qed
qed


lemma except_ValueError_simps [simp]:
  "except_ValueError (Inr x) st = Inr x"
  "except_ValueError (Inl ValueError) st = Inr st"
  "except_ValueError (Inl IndexError) st = Inl IndexError"
  "except_ValueError (Inl KeyError) st = Inl KeyError"
  by (simp_all add: except_ValueError_def)

lemma vacc_step_eq:
  "vacc_step pop line =
     (case line of [] \<Rightarrow> Inl IndexError
      | c # _ \<Rightarrow>
          if \<not> isdigit c then Inr pop
          else andthen (row_code line) (\<lambda>zc.
               case map_of pop zc of None \<Rightarrow> Inl KeyError
               | Some r \<Rightarrow>
                   andthen (column 4 line) (\<lambda>s4.
                   case py_int s4 of Inl e \<Rightarrow> Inr pop
                   | Inr v \<Rightarrow> Inr (AList.update zc (r\<lparr>slot_vacc := slot_vacc r + v\<rparr>) pop))))"
proof (cases line)
  case Nil
  then show ?thesis by (simp add: vacc_step_def)
next
  case (Cons c cs)
  show ?thesis
  proof (cases "isdigit c")
    case False
    with Cons show ?thesis by (simp add: vacc_step_def)
  next
    case True
    show ?thesis
    proof (cases "row_code line")
      case (Inl e)
      with Cons True show ?thesis
        by (simp add: vacc_step_def row_code_def column_def index_0_split)
    next
      case (Inr zc)
      show ?thesis
      proof (cases "map_of pop zc")
        case None
        with Cons True Inr show ?thesis
          by (simp add: vacc_step_def row_code_def column_def index_0_split lookup_eq)
      next
        case (Some r)
        show ?thesis
        proof (cases "column 4 line")
          case (Inl e)
          then have "e = IndexError" by (auto simp: column_def dest: index_error)
          with Cons True Inr Some Inl show ?thesis
            by (simp add: vacc_step_def row_code_def column_def index_0_split lookup_eq)
        next
          case s4: (Inr s4)
          show ?thesis
          proof (cases "py_int s4")
            case (Inl e)
            then have "e = ValueError" by (rule py_int_error)
            with Cons True Inr Some s4 Inl show ?thesis
              by (simp add: vacc_step_def row_code_def column_def index_0_split lookup_eq)
          next
            case v: (Inr v)
            with Cons True Inr Some s4 show ?thesis
              by (simp add: vacc_step_def row_code_def column_def index_0_split lookup_eq)
          qed
        qed
      qed
    qed
  qed
qed

lemma adi_step_eq:
  "adi_step pop adi line =
     andthen (index (adi_fields line) 0) (\<lambda>s0.
     andthen (index s0 0) (\<lambda>c.
       if \<not> isdigit c then Inr adi
       else andthen (adi_code line) (\<lambda>zc.
            if map_of pop zc = None then Inr adi
            else case map_of adi zc of None \<Rightarrow> Inl KeyError
                 | Some (t, n) \<Rightarrow>
                     andthen (index (adi_fields line) 4) (\<lambda>s4.
                     case py_int s4 of Inl e \<Rightarrow> Inr adi
                     | Inr v \<Rightarrow> Inr (AList.update zc (t + v, n + 1) adi)))))"
proof -
  have fields: "index (adi_fields line) 0 = Inr (hd (adi_fields line))"
    by (simp add: adi_fields_def index_0_split)
  have inner: "except_ValueError
       (andthen (lookup adi zc) (\<lambda>(t, n).
        andthen (index (adi_fields line) 4) (\<lambda>s4.
        andthen (py_int s4) (\<lambda>v. Inr (AList.update zc (t + v, n + 1) adi))))) adi
     = (case map_of adi zc of None \<Rightarrow> Inl KeyError
        | Some (t, n) \<Rightarrow>
            andthen (index (adi_fields line) 4) (\<lambda>s4.
            case py_int s4 of Inl e \<Rightarrow> Inr adi
            | Inr v \<Rightarrow> Inr (AList.update zc (t + v, n + 1) adi)))" for zc
  proof (cases "map_of adi zc")
    case None
    then show ?thesis by (simp add: lookup_eq)
  next
    case (Some tn)
    obtain t n where tn: "tn = (t, n)" by (cases tn)
    show ?thesis
    proof (cases "index (adi_fields line) 4")
      case (Inl e)
      then have "e = IndexError" by (rule index_error)
      with Some tn Inl show ?thesis by (simp add: lookup_eq)
    next
      case s4: (Inr s4)
      show ?thesis
      proof (cases "py_int s4")
        case (Inl e)
        then have "e = ValueError" by (rule py_int_error)
        with Some tn s4 Inl show ?thesis by (simp add: lookup_eq)
      next
        case (Inr v)
        with Some tn s4 show ?thesis by (simp add: lookup_eq)
      qed
    qed
  qed
  have code: "adi_code line = py_int (take 5 (hd (adi_fields line)))"
    by (simp add: adi_code_def fields)
  show ?thesis
    unfolding adi_step_def Let_def adi_fields_def[symmetric] inner
    by (simp add: fields code cong: if_cong)
qed

lemma mean_step_eq:
  "mean_step F adi pop zc =
     (case map_of adi zc of None \<Rightarrow> Inl KeyError
      | Some (t, n) \<Rightarrow>
          if n > 0 then
            andthen (truediv F t n) (\<lambda>q.
              case map_of pop zc of None \<Rightarrow> Inl KeyError
              | Some r \<Rightarrow> Inr (AList.update zc (r\<lparr>slot_adi := PFloat q\<rparr>) pop))
          else Inr pop)"
  by (auto simp: mean_step_def lookup_eq andthen_def split: option.splits sum.splits)

lemma oks_simps [simp]:
  "oks f [] = []"
  "oks f (xs @ ys) = oks f xs @ oks f ys"
  "f x = Inr y \<Longrightarrow> oks f [x] = [y]"
  "f x = Inl e \<Longrightarrow> oks f [x] = []"
  by (simp_all add: oks_def)

lemma rows_of_simps [simp]:
  "rows_of zc [] = []"
  "rows_of zc (xs @ ys) = rows_of zc xs @ rows_of zc ys"
  by (simp_all add: rows_of_def)

lemma rows_of_single:
  "rows_of zc [x] = (if is_data x \<and> row_code x = Inr zc then [x] else [])"
  by (simp add: rows_of_def)

lemma case_codes_snoc:
  "case_codes (xs @ [x]) = case_codes xs @ (if is_data x then oks row_code [x] else [])"
  by (simp add: case_codes_def)

lemma rows_of_empty_iff: "rows_of zc xs = [] \<longleftrightarrow> zc \<notin> set (case_codes xs)"
  by (induction xs) (auto simp: rows_of_def case_codes_def oks_def split: sum.splits)

lemma is_data_Cons [simp]: "is_data (c # cs) = isdigit c"
  by (simp add: is_data_def)

lemma is_data_Nil [simp]: "\<not> is_data []"
  by (simp add: is_data_def)

lemma case_step_Inr:
  assumes "case_step F p x = Inr pop"
  shows "(\<not> is_data x \<and> pop = p) \<or>
         (is_data x \<and> (\<exists>zc la lo v. row_code x = Inr zc \<and> case_coords F x = Inr (la, lo)
            \<and> case_count x = Inr v
            \<and> pop = AList.update zc ((entry p zc)\<lparr>slot_lat := PFloat la, slot_lon := PFloat lo,
                      slot_pop := max (slot_pop (entry p zc)) v\<rparr>) p))"
  using assms unfolding case_step_eq
  by (auto split: list.splits if_splits simp: andthen_Inr_iff)

lemma case_inv_Nil: "case_inv F [] []"
  by (simp add: case_inv_def case_codes_def)

lemma Max_insert0_snoc:
  "Max (insert 0 (set (vs @ [v]))) = max (Max (insert (0::int) (set vs))) v"
proof -
  have "insert 0 (set (vs @ [v])) = insert v (insert 0 (set vs))" by auto
  then show ?thesis by (simp add: max.commute)
qed

lemma keys_update: "set (map fst (AList.update k v al)) = insert k (set (map fst al))"
  by (auto simp: update_keys)

lemma case_inv_step:
  assumes inv: "case_inv F xs p" and step: "case_step F p x = Inr pop"
  shows "case_inv F (xs @ [x]) pop"
proof -
  from case_step_Inr[OF step] show ?thesis
  proof (elim disjE conjE exE)
    assume "\<not> is_data x" "pop = p"
    with inv show ?thesis
      by (simp add: case_inv_def case_codes_snoc rows_of_single)
  next
    fix zc la lo v
    assume d: "is_data x" and c: "row_code x = Inr zc" and xy: "case_coords F x = Inr (la, lo)"
      and v: "case_count x = Inr v"
      and pop: "pop = AList.update zc ((entry p zc)\<lparr>slot_lat := PFloat la, slot_lon := PFloat lo,
                      slot_pop := max (slot_pop (entry p zc)) v\<rparr>) p"
    have keys: "set (map fst pop) = set (case_codes (xs @ [x]))"
    proof -
      from inv have "set (map fst p) = set (case_codes xs)" by (simp add: case_inv_def)
      then show ?thesis using d c unfolding pop keys_update by (simp add: case_codes_snoc)
    qed
    have dist: "distinct (map fst pop)"
      using inv by (simp add: pop case_inv_def distinct_update)
    have old: "slot_pop (entry p zc) = Max (insert 0 (set (oks case_count (rows_of zc xs))))
        \<and> slot_vacc (entry p zc) = 0 \<and> slot_adi (entry p zc) = PInt 0"
    proof (cases "map_of p zc")
      case None
      then have "zc \<notin> set (case_codes xs)"
        using inv by (auto simp: case_inv_def map_of_eq_None_iff)
      then have "rows_of zc xs = []" by (simp add: rows_of_empty_iff)
      with None show ?thesis by (simp add: entry_def new_entry_def)
    next
      case (Some r)
      with inv show ?thesis by (simp add: entry_def case_inv_def)
    qed
    have "\<And>z r. map_of pop z = Some r \<Longrightarrow>
        slot_pop r = Max (insert 0 (set (oks case_count (rows_of z (xs @ [x]))))) \<and>
        slot_vacc r = 0 \<and> slot_adi r = PInt 0 \<and>
        (\<exists>la lo. case_coords F (last (rows_of z (xs @ [x]))) = Inr (la, lo)
            \<and> slot_lat r = PFloat la \<and> slot_lon r = PFloat lo)"
    proof -
      fix z r assume zr: "map_of pop z = Some r"
      show "slot_pop r = Max (insert 0 (set (oks case_count (rows_of z (xs @ [x]))))) \<and>
        slot_vacc r = 0 \<and> slot_adi r = PInt 0 \<and>
        (\<exists>la lo. case_coords F (last (rows_of z (xs @ [x]))) = Inr (la, lo)
            \<and> slot_lat r = PFloat la \<and> slot_lon r = PFloat lo)"
      proof (cases "z = zc")
        case True
        with zr have r: "r = (entry p zc)\<lparr>slot_lat := PFloat la, slot_lon := PFloat lo,
                      slot_pop := max (slot_pop (entry p zc)) v\<rparr>"
          by (simp add: pop update_conv')
        have rows: "rows_of z (xs @ [x]) = rows_of zc xs @ [x]"
          using True d c by (simp add: rows_of_single)
        show ?thesis
          using old xy v unfolding r rows by (simp add: Max_insert0_snoc del: set_append)
      next
        case False
        with zr have "map_of p z = Some r" by (simp add: pop update_conv')
        moreover have "rows_of z (xs @ [x]) = rows_of z xs"
          using False c by (auto simp: rows_of_single)
        ultimately show ?thesis using inv by (simp add: case_inv_def)
      qed
    qed
    with keys dist show ?thesis by (simp add: case_inv_def)
  qed
qed

lemma case_phase_inv:
  "for_each (case_step F) [] cf = Inr pop \<Longrightarrow> case_inv F cf pop"
proof (induction cf arbitrary: pop rule: rev_induct)
  case Nil
  then show ?case by (simp add: case_inv_Nil)
next
  case (snoc x xs)
  then obtain p where "for_each (case_step F) [] xs = Inr p" "case_step F p x = Inr pop"
    by (auto simp: for_each_snoc andthen_Inr_iff)
  with snoc.IH show ?case by (blast intro: case_inv_step)
qed

lemma update_present_keys:
  "map_of al k = Some r \<Longrightarrow> map fst (AList.update k v al) = map fst al"
  by (auto simp: update_keys map_of_eq_None_iff[symmetric] simp del: map_of_eq_None_iff)

lemma vacc_step_Inr:
  assumes "vacc_step p x = Inr q"
  shows "(\<not> is_data x \<and> q = p) \<or>
         (is_data x \<and> (\<exists>zc r. row_code x = Inr zc \<and> map_of p zc = Some r
            \<and> ((\<exists>e. vacc_count x = Inl e) \<and> q = p
               \<or> (\<exists>v. vacc_count x = Inr v
                    \<and> q = AList.update zc (r\<lparr>slot_vacc := slot_vacc r + v\<rparr>) p))))"
proof (cases x)
  case Nil
  with assms show ?thesis by (simp add: vacc_step_eq)
next
  case (Cons c cs)
  show ?thesis
  proof (cases "isdigit c")
    case False
    with assms Cons show ?thesis by (simp add: vacc_step_eq)
  next
    case True
    have d: "is_data x" using Cons True by simp
    show ?thesis
    proof (cases "row_code x")
      case (Inl e)
      with assms Cons True show ?thesis by (simp add: vacc_step_eq)
    next
      case zc: (Inr zc)
      show ?thesis
      proof (cases "map_of p zc")
        case None
        with assms Cons True zc show ?thesis by (simp add: vacc_step_eq)
      next
        case r: (Some r)
        show ?thesis
        proof (cases "column 4 x")
          case (Inl e)
          with assms Cons True zc r show ?thesis by (simp add: vacc_step_eq)
        next
          case s4: (Inr s4)
          show ?thesis
          proof (cases "py_int s4")
            case (Inl e)
            with assms Cons True zc r s4 have "q = p" by (simp add: vacc_step_eq)
            moreover have "vacc_count x = Inl e" using s4 Inl by (simp add: vacc_count_def)
            ultimately show ?thesis using d zc r by blast
          next
            case (Inr v)
            with assms Cons True zc r s4
            have "q = AList.update zc (r\<lparr>slot_vacc := slot_vacc r + v\<rparr>) p"
              by (simp add: vacc_step_eq)
            moreover have "vacc_count x = Inr v" using s4 Inr by (simp add: vacc_count_def)
            ultimately show ?thesis using d zc r by blast
          qed
        qed
      qed
    qed
  qed
qed

lemma vacc_phase:
  "for_each vacc_step p vf = Inr q \<Longrightarrow>
     map fst q = map fst p \<and>
     (\<forall>zc r. map_of p zc = Some r \<longrightarrow>
        map_of q zc = Some (r\<lparr>slot_vacc := slot_vacc r + sum_list (oks vacc_count (rows_of zc vf))\<rparr>))"
proof (induction vf arbitrary: q rule: rev_induct)
  case Nil
  then show ?case by simp
next
  case (snoc x xs)
  then obtain m where m: "for_each vacc_step p xs = Inr m" and st: "vacc_step m x = Inr q"
    by (auto simp: for_each_snoc andthen_Inr_iff)
  note IH = snoc.IH[OF m]
  from vacc_step_Inr[OF st] show ?case
  proof (elim disjE conjE exE)
    assume "\<not> is_data x" "q = m"
    with IH show ?thesis by (simp add: rows_of_single)
  next
    fix zc r e
    assume "is_data x" "row_code x = Inr zc" "map_of m zc = Some r" "vacc_count x = Inl e" "q = m"
    with IH show ?thesis by (simp add: rows_of_single)
  next
    fix zc r v
    assume d: "is_data x" and c: "row_code x = Inr zc" and r: "map_of m zc = Some r"
      and v: "vacc_count x = Inr v"
      and q: "q = AList.update zc (r\<lparr>slot_vacc := slot_vacc r + v\<rparr>) m"
    have keys: "map fst q = map fst p"
      using IH r by (simp add: q update_present_keys)
    have "map_of q z = Some (r0\<lparr>slot_vacc := slot_vacc r0 + sum_list (oks vacc_count (rows_of z (xs @ [x])))\<rparr>)"
      if r0: "map_of p z = Some r0" for z r0
    proof (cases "z = zc")
      case True
      with IH r0 r have "r = r0\<lparr>slot_vacc := slot_vacc r0 + sum_list (oks vacc_count (rows_of zc xs))\<rparr>"
        by simp
      moreover have "rows_of z (xs @ [x]) = rows_of zc xs @ [x]"
        using True d c by (simp add: rows_of_single)
      ultimately show ?thesis using True v by (simp add: q update_conv')
    next
      case False
      then have "rows_of z (xs @ [x]) = rows_of z xs"
        using c by (auto simp: rows_of_single)
      with False IH r0 show ?thesis by (simp add: q update_conv')
    qed
    with keys show ?thesis by blast
  qed
qed

lemma adi_is_data_iff:
  "adi_is_data line \<longleftrightarrow> (\<exists>s0 c. index (adi_fields line) 0 = Inr s0 \<and> index s0 0 = Inr c \<and> isdigit c)"
  by (auto simp: adi_is_data_def index_def split: list.splits if_splits)

lemma adi_step_Inr:
  assumes "adi_step pop a x = Inr b"
  shows "(\<not> adi_is_data x \<and> b = a) \<or>
         (adi_is_data x \<and> (\<exists>zc. adi_code x = Inr zc
            \<and> (map_of pop zc = None \<and> b = a
               \<or> map_of pop zc \<noteq> None \<and> (\<exists>t n. map_of a zc = Some (t, n)
                   \<and> ((\<exists>e. adi_value x = Inl e) \<and> b = a
                      \<or> (\<exists>v. adi_value x = Inr v \<and> b = AList.update zc (t + v, n + 1) a))))))"
proof (cases "index (adi_fields x) 0")
  case (Inl e)
  with assms show ?thesis by (simp add: adi_step_eq)
next
  case s0: (Inr s0)
  show ?thesis
  proof (cases "index s0 0")
    case (Inl e)
    with assms s0 show ?thesis by (simp add: adi_step_eq)
  next
    case c: (Inr c)
    have d: "adi_is_data x \<longleftrightarrow> isdigit c"
      using s0 c by (auto simp: adi_is_data_iff)
    show ?thesis
    proof (cases "isdigit c")
      case False
      with assms s0 c d show ?thesis by (simp add: adi_step_eq)
    next
      case True
      show ?thesis
      proof (cases "adi_code x")
        case (Inl e)
        with assms s0 c True show ?thesis by (simp add: adi_step_eq)
      next
        case zc: (Inr zc)
        show ?thesis
        proof (cases "map_of pop zc = None")
          case known: True
          with assms s0 c True zc have "b = a" by (simp add: adi_step_eq)
          with d True zc known show ?thesis by blast
        next
          case known: False
          show ?thesis
          proof (cases "map_of a zc")
            case None
            with assms s0 c True zc known show ?thesis by (simp add: adi_step_eq)
          next
            case (Some tn)
            obtain t n where tn: "map_of a zc = Some (t, n)" using Some by (cases tn) simp
            show ?thesis
            proof (cases "index (adi_fields x) 4")
              case (Inl e)
              with assms s0 c True zc known tn show ?thesis by (simp add: adi_step_eq)
            next
              case s4: (Inr s4)
              show ?thesis
              proof (cases "py_int s4")
                case (Inl e)
                with assms s0 c True zc known tn s4 have "b = a" by (simp add: adi_step_eq)
                moreover have "adi_value x = Inl e" using s4 Inl by (simp add: adi_value_def)
                ultimately show ?thesis using d True zc known tn by blast
              next
                case (Inr v)
                with assms s0 c True zc known tn s4
                have "b = AList.update zc (t + v, n + 1) a" by (simp add: adi_step_eq)
                moreover have "adi_value x = Inr v" using s4 Inr by (simp add: adi_value_def)
                ultimately show ?thesis using d True zc known tn by blast
              qed
            qed
          qed
        qed
      qed
    qed
  qed
qed

lemma adi_rows_of_simps [simp]:
  "adi_rows_of zc [] = []"
  "adi_rows_of zc (xs @ ys) = adi_rows_of zc xs @ adi_rows_of zc ys"
  by (simp_all add: adi_rows_of_def)

lemma adi_rows_of_single:
  "adi_rows_of zc [x] = (if adi_is_data x \<and> adi_code x = Inr zc then [x] else [])"
  by (simp add: adi_rows_of_def)

lemma adi_phase:
  "for_each (adi_step pop) a0 af = Inr a \<Longrightarrow>
     map fst a = map fst a0 \<and>
     (\<forall>zc t n. map_of a0 zc = Some (t, n) \<longrightarrow> map_of pop zc \<noteq> None \<longrightarrow>
        map_of a zc = Some (t + sum_list (oks adi_value (adi_rows_of zc af)),
                             n + int (length (oks adi_value (adi_rows_of zc af)))))"
proof (induction af arbitrary: a rule: rev_induct)
  case Nil
  then show ?case by simp
next
  case (snoc x xs)
  then obtain m where m: "for_each (adi_step pop) a0 xs = Inr m" and st: "adi_step pop m x = Inr a"
    by (auto simp: for_each_snoc andthen_Inr_iff)
  note IH = snoc.IH[OF m]
  from adi_step_Inr[OF st] show ?case
  proof (elim disjE conjE exE)
    assume "\<not> adi_is_data x" "a = m"
    with IH show ?thesis by (simp add: adi_rows_of_single)
  next
    fix zc
    assume "adi_is_data x" "adi_code x = Inr zc" "map_of pop zc = None" "a = m"
    with IH show ?thesis by (auto simp: adi_rows_of_single)
  next
    fix zc t n e
    assume "adi_is_data x" "adi_code x = Inr zc" "map_of m zc = Some (t, n)"
      "adi_value x = Inl e" "a = m"
    with IH show ?thesis by (simp add: adi_rows_of_single)
  next
    fix zc t n v
    assume d: "adi_is_data x" and c: "adi_code x = Inr zc" and known: "map_of pop zc \<noteq> None"
      and tn: "map_of m zc = Some (t, n)" and v: "adi_value x = Inr v"
      and a: "a = AList.update zc (t + v, n + 1) m"
    have keys: "map fst a = map fst a0"
      using IH tn by (simp add: a update_present_keys)
    have "map_of a z = Some (t0 + sum_list (oks adi_value (adi_rows_of z (xs @ [x]))),
                             n0 + int (length (oks adi_value (adi_rows_of z (xs @ [x])))))"
      if z0: "map_of a0 z = Some (t0, n0)" and zk: "map_of pop z \<noteq> None" for z t0 n0
    proof (cases "z = zc")
      case True
      with IH z0 zk tn have "t = t0 + sum_list (oks adi_value (adi_rows_of zc xs))"
        "n = n0 + int (length (oks adi_value (adi_rows_of zc xs)))"
        by simp_all
      moreover have "adi_rows_of z (xs @ [x]) = adi_rows_of zc xs @ [x]"
        using True d c by (simp add: adi_rows_of_single)
      ultimately show ?thesis using True v by (simp add: a update_conv')
    next
      case False
      then have "adi_rows_of z (xs @ [x]) = adi_rows_of z xs"
        using c by (auto simp: adi_rows_of_single)
      with False IH z0 zk show ?thesis by (simp add: a update_conv')
    qed
    with keys show ?thesis by blast
  qed
qed

lemma mean_step_Inr:
  assumes "mean_step F adi p zc = Inr q"
  shows "\<exists>t n. map_of adi zc = Some (t, n) \<and>
          (n > 0 \<longrightarrow> (\<exists>qv r. truediv F t n = Inr qv \<and> map_of p zc = Some r
                \<and> q = AList.update zc (r\<lparr>slot_adi := PFloat qv\<rparr>) p)) \<and>
          (\<not> n > 0 \<longrightarrow> q = p)"
proof (cases "map_of adi zc")
  case None
  with assms show ?thesis by (simp add: mean_step_eq)
next
  case (Some tn)
  obtain t n where tn: "map_of adi zc = Some (t, n)" using Some by (cases tn) simp
  show ?thesis
  proof (cases "n > 0")
    case False
    with assms tn show ?thesis by (simp add: mean_step_eq)
  next
    case True
    show ?thesis
    proof (cases "truediv F t n")
      case (Inl e)
      with assms tn True show ?thesis by (simp add: mean_step_eq)
    next
      case qv: (Inr qv)
      show ?thesis
      proof (cases "map_of p zc")
        case None
        with assms tn True qv show ?thesis by (simp add: mean_step_eq)
      next
        case (Some r)
        with assms tn True qv have "q = AList.update zc (r\<lparr>slot_adi := PFloat qv\<rparr>) p"
          by (simp add: mean_step_eq)
        with tn True qv Some show ?thesis by simp
      qed
    qed
  qed
qed

lemma mean_phase:
  "for_each (mean_step F adi) p ks = Inr q \<Longrightarrow>
     map fst q = map fst p \<and>
     (\<forall>zc r. map_of p zc = Some r \<longrightarrow>
        (\<exists>r'. map_of q zc = Some r' \<and> slot_lat r' = slot_lat r \<and> slot_lon r' = slot_lon r
           \<and> slot_pop r' = slot_pop r \<and> slot_vacc r' = slot_vacc r
           \<and> (if zc \<in> set ks \<and> (\<exists>t n. map_of adi zc = Some (t, n) \<and> n > 0)
               then \<exists>t n qv. map_of adi zc = Some (t, n) \<and> truediv F t n = Inr qv
                      \<and> slot_adi r' = PFloat qv
               else slot_adi r' = slot_adi r)))"
proof (induction ks arbitrary: q rule: rev_induct)
  case Nil
  then show ?case by simp
next
  case (snoc k ks)
  then obtain m where m: "for_each (mean_step F adi) p ks = Inr m" and st: "mean_step F adi m k = Inr q"
    by (auto simp: for_each_snoc andthen_Inr_iff)
  note IH = snoc.IH[OF m]
  from mean_step_Inr[OF st] obtain t n where tn: "map_of adi k = Some (t, n)"
    and eff1: "n > 0 \<longrightarrow> (\<exists>qv r. truediv F t n = Inr qv \<and> map_of m k = Some r
                \<and> q = AList.update k (r\<lparr>slot_adi := PFloat qv\<rparr>) m)"
    and eff2: "\<not> n > 0 \<longrightarrow> q = m"
    by blast
  show ?case
  proof (cases "n > 0")
    case False
    with eff2 have qm: "q = m" by simp
    have "\<exists>r'. map_of q z = Some r' \<and> slot_lat r' = slot_lat r \<and> slot_lon r' = slot_lon r
           \<and> slot_pop r' = slot_pop r \<and> slot_vacc r' = slot_vacc r
           \<and> (if z \<in> set (ks @ [k]) \<and> (\<exists>t n. map_of adi z = Some (t, n) \<and> n > 0)
               then \<exists>t n qv. map_of adi z = Some (t, n) \<and> truediv F t n = Inr qv
                      \<and> slot_adi r' = PFloat qv
               else slot_adi r' = slot_adi r)"
      if r: "map_of p z = Some r" for z r
    proof (cases "z = k")
      case True
      have no: "\<not> (\<exists>t n. map_of adi z = Some (t, n) \<and> n > 0)"
        using True tn False by simp
      from IH r obtain r1 where r1: "map_of m z = Some r1" "slot_lat r1 = slot_lat r"
        "slot_lon r1 = slot_lon r" "slot_pop r1 = slot_pop r" "slot_vacc r1 = slot_vacc r"
        "slot_adi r1 = slot_adi r"
        using no by (metis (no_types, lifting))
      with no show ?thesis by (auto simp: qm)
    next
      case False
      with IH r show ?thesis by (simp add: qm)
    qed
    with IH qm show ?thesis by blast
  next
    case True
    with eff1 obtain qv rk where qv: "truediv F t n = Inr qv" and rk: "map_of m k = Some rk"
      and q: "q = AList.update k (rk\<lparr>slot_adi := PFloat qv\<rparr>) m"
      by auto
    have keys: "map fst q = map fst p"
      using IH rk by (simp add: q update_present_keys)
    have "\<exists>r'. map_of q z = Some r' \<and> slot_lat r' = slot_lat r \<and> slot_lon r' = slot_lon r
           \<and> slot_pop r' = slot_pop r \<and> slot_vacc r' = slot_vacc r
           \<and> (if z \<in> set (ks @ [k]) \<and> (\<exists>t n. map_of adi z = Some (t, n) \<and> n > 0)
               then \<exists>t n qv. map_of adi z = Some (t, n) \<and> truediv F t n = Inr qv
                      \<and> slot_adi r' = PFloat qv
               else slot_adi r' = slot_adi r)"
      if r: "map_of p z = Some r" for z r
    proof (cases "z = k")
      case True
      from IH r obtain r1 where "map_of m z = Some r1" "slot_lat r1 = slot_lat r"
        "slot_lon r1 = slot_lon r" "slot_pop r1 = slot_pop r" "slot_vacc r1 = slot_vacc r"
        by blast
      with True rk tn qv \<open>n > 0\<close> show ?thesis by (simp add: q update_conv')
    next
      case False
      with IH r show ?thesis by (simp add: q update_conv')
    qed
    with keys show ?thesis by blast
  qed
qed

lemma map_of_zero_tally:
  "map_of (map (\<lambda>zc. (zc, (0::int, 0::int))) ks) zc = (if zc \<in> set ks then Some (0, 0) else None)"
  by (induction ks) auto

lemma map_of_Some_key: "map_of al k = Some v \<Longrightarrow> k \<in> set (map fst al)"
  by (metis map_of_eq_None_iff option.distinct(1) set_map)

lemma key_map_of_Some: "k \<in> set (map fst al) \<Longrightarrow> \<exists>v. map_of al k = Some v"
  by (metis map_of_eq_None_iff not_None_eq set_map)

lemma chicago_pop_phases:
  assumes "chicago_pop F cf vf af = Inr pop"
  obtains pop1 pop2 adi where
    "for_each (case_step F) [] cf = Inr pop1"
    "for_each vacc_step pop1 vf = Inr pop2"
    "for_each (adi_step pop2) (map (\<lambda>zc. (zc, (0, 0))) (map fst pop2)) af = Inr adi"
    "for_each (mean_step F adi) pop2 (map fst pop2) = Inr pop"
  using assms unfolding chicago_pop_def Let_def andthen_Inr_iff by blast

lemma chicago_pop_inv:
  assumes run: "chicago_pop F cf vf af = Inr pop"
  shows "final_inv F cf vf af pop"
proof -
  from run obtain pop1 pop2 adi where
    p1: "for_each (case_step F) [] cf = Inr pop1" and
    p2: "for_each vacc_step pop1 vf = Inr pop2" and
    p3: "for_each (adi_step pop2) (map (\<lambda>zc. (zc, (0, 0))) (map fst pop2)) af = Inr adi" and
    p4: "for_each (mean_step F adi) pop2 (map fst pop2) = Inr pop"
    by (rule chicago_pop_phases)
  from case_phase_inv[OF p1] have inv1: "case_inv F cf pop1" .
  from vacc_phase[OF p2] have k2: "map fst pop2 = map fst pop1"
    by (rule conjunct1)
  have v2: "map_of pop2 zc = Some (r\<lparr>slot_vacc := slot_vacc r + sum_list (oks vacc_count (rows_of zc vf))\<rparr>)"
    if "map_of pop1 zc = Some r" for zc r
    using vacc_phase[OF p2, THEN conjunct2, rule_format, OF that] .
  from adi_phase[OF p3] have a3: "\<And>zc. zc \<in> set (map fst pop2) \<Longrightarrow>
        map_of adi zc = Some (sum_list (oks adi_value (adi_rows_of zc af)),
                               int (length (oks adi_value (adi_rows_of zc af))))"
  proof -
    fix zc assume zc: "zc \<in> set (map fst pop2)"
    then have z0: "map_of (map (\<lambda>zc. (zc, (0::int, 0::int))) (map fst pop2)) zc = Some (0, 0)"
      by (simp only: map_of_zero_tally if_True)
    have known: "map_of pop2 zc \<noteq> None" using zc by (simp add: map_of_eq_None_iff)
    from adi_phase[OF p3]
    have "\<forall>zc t n. map_of (map (\<lambda>zc. (zc, (0::int, 0::int))) (map fst pop2)) zc = Some (t, n) \<longrightarrow>
        map_of pop2 zc \<noteq> None \<longrightarrow>
        map_of adi zc = Some (t + sum_list (oks adi_value (adi_rows_of zc af)),
                             n + int (length (oks adi_value (adi_rows_of zc af))))"
      by (rule conjunct2)
    then have "map_of adi zc = Some (0 + sum_list (oks adi_value (adi_rows_of zc af)),
                             0 + int (length (oks adi_value (adi_rows_of zc af))))"
      using z0 known by blast
    then show "map_of adi zc = Some (sum_list (oks adi_value (adi_rows_of zc af)),
                               int (length (oks adi_value (adi_rows_of zc af))))"
      by simp
  qed
  from mean_phase[OF p4] have k4: "map fst pop = map fst pop2"
    by (rule conjunct1)
  note m4 = mean_phase[OF p4, THEN conjunct2, rule_format]
  have keys: "map fst pop = map fst pop1" using k2 k4 by simp
  have fields: "slot_pop r = Max (insert 0 (set (oks case_count (rows_of zc cf)))) \<and>
        slot_vacc r = sum_list (oks vacc_count (rows_of zc vf)) \<and>
        (oks adi_value (adi_rows_of zc af) = [] \<longrightarrow> slot_adi r = PInt 0) \<and>
        (oks adi_value (adi_rows_of zc af) \<noteq> [] \<longrightarrow>
           (\<exists>q. truediv F (sum_list (oks adi_value (adi_rows_of zc af)))
                    (int (length (oks adi_value (adi_rows_of zc af)))) = Inr q
              \<and> slot_adi r = PFloat q)) \<and>
        (\<exists>la lo. case_coords F (last (rows_of zc cf)) = Inr (la, lo)
            \<and> slot_lat r = PFloat la \<and> slot_lon r = PFloat lo)"
    if r: "map_of pop zc = Some r" for zc r
  proof -
    from r have "zc \<in> set (map fst pop)" by (rule map_of_Some_key)
    then have key: "zc \<in> set (map fst pop1)" by (simp only: keys)
    from key_map_of_Some[OF this] obtain r1 where r1: "map_of pop1 zc = Some r1" ..
    from inv1 have "\<forall>zc r. map_of pop1 zc = Some r \<longrightarrow>
        slot_pop r = Max (insert 0 (set (oks case_count (rows_of zc cf)))) \<and>
        slot_vacc r = 0 \<and> slot_adi r = PInt 0 \<and>
        (\<exists>la lo. case_coords F (last (rows_of zc cf)) = Inr (la, lo)
            \<and> slot_lat r = PFloat la \<and> slot_lon r = PFloat lo)"
      by (simp add: case_inv_def)
    from this[rule_format, OF r1]
    have f1: "slot_pop r1 = Max (insert 0 (set (oks case_count (rows_of zc cf))))"
      "slot_vacc r1 = 0" "slot_adi r1 = PInt 0"
      "\<exists>la lo. case_coords F (last (rows_of zc cf)) = Inr (la, lo)
            \<and> slot_lat r1 = PFloat la \<and> slot_lon r1 = PFloat lo"
      by simp_all
    define r2 where "r2 = r1\<lparr>slot_vacc := slot_vacc r1 + sum_list (oks vacc_count (rows_of zc vf))\<rparr>"
    have r2: "map_of pop2 zc = Some r2" using v2[OF r1] by (simp add: r2_def)
    have key2: "zc \<in> set (map fst pop2)" using key k2 by simp
    define vs where "vs = oks adi_value (adi_rows_of zc af)"
    have tally: "map_of adi zc = Some (sum_list vs, int (length vs))"
      using a3[OF key2] by (simp add: vs_def)
    from m4[OF r2] obtain r' where r': "map_of pop zc = Some r'"
      and same': "slot_lat r' = slot_lat r2" "slot_lon r' = slot_lon r2"
      "slot_pop r' = slot_pop r2" "slot_vacc r' = slot_vacc r2"
      and adi': "if zc \<in> set (map fst pop2) \<and> (\<exists>t n. map_of adi zc = Some (t, n) \<and> n > 0)
               then \<exists>t n qv. map_of adi zc = Some (t, n) \<and> truediv F t n = Inr qv
                      \<and> slot_adi r' = PFloat qv
               else slot_adi r' = slot_adi r2"
      by blast
    from r r' have rr: "r' = r" by simp
    note same = same'[unfolded rr] and adi = adi'[unfolded rr]
    have a0: "vs = [] \<longrightarrow> slot_adi r = PInt 0"
      using adi tally f1(3) by (auto simp: r2_def)
    have a1: "vs \<noteq> [] \<longrightarrow> (\<exists>q. truediv F (sum_list vs) (int (length vs)) = Inr q \<and> slot_adi r = PFloat q)"
      using adi tally key2 by auto
    show ?thesis
      using same f1 a0 a1 by (simp add: r2_def vs_def)
  qed
  from inv1 have "distinct (map fst pop)" "set (map fst pop) = set (case_codes cf)"
    by (simp_all add: keys case_inv_def)
  with fields show ?thesis unfolding final_inv_def by blast
qed

lemma pop_rows_loop:
  assumes "\<forall>i\<in>set js. i < length sk \<and> (\<exists>r. map_of pop (sk ! i) = Some r)"
  shows "\<exists>new. for_each (\<lambda>rows i.
          andthen (index sk i) (\<lambda>zc.
          andthen (lookup pop zc) (\<lambda>r.
          Inr (rows @ [(i, zc, r)])))) acc js = Inr (acc @ new)
       \<and> map fst new = js \<and> map (\<lambda>row. fst (snd row)) new = map (\<lambda>i. sk ! i) js
       \<and> (\<forall>row\<in>set new. map_of pop (fst (snd row)) = Some (snd (snd row)))"
  using assms
proof (induction js arbitrary: acc)
  case Nil
  then show ?case by simp
next
  case (Cons j js)
  then obtain r where j: "j < length sk" and r: "map_of pop (sk ! j) = Some r" by auto
  from Cons have rest: "\<forall>i\<in>set js. i < length sk \<and> (\<exists>r. map_of pop (sk ! i) = Some r)" by simp
  from Cons.IH[OF rest, of "acc @ [(j, sk ! j, r)]"] obtain new where
    new: "for_each (\<lambda>rows i.
          andthen (index sk i) (\<lambda>zc.
          andthen (lookup pop zc) (\<lambda>r.
          Inr (rows @ [(i, zc, r)])))) (acc @ [(j, sk ! j, r)]) js = Inr ((acc @ [(j, sk ! j, r)]) @ new)"
    "map fst new = js" "map (\<lambda>row. fst (snd row)) new = map (\<lambda>i. sk ! i) js"
    "\<forall>row\<in>set new. map_of pop (fst (snd row)) = Some (snd (snd row))"
    by blast
  show ?case
    apply (rule exI[of _ "(j, sk ! j, r) # new"])
    using j r new by (simp add: index_def lookup_eq)
qed

lemma pop_rows_Inr:
  "\<exists>rows. pop_rows pop = Inr rows \<and> map fst rows = [0..<length pop]
     \<and> map (\<lambda>row. fst (snd row)) rows = sort (map fst pop)
     \<and> (\<forall>row\<in>set rows. map_of pop (fst (snd row)) = Some (snd (snd row)))"
proof -
  define sk where "sk = sort (map fst pop)"
  have len: "length sk = length pop" by (simp add: sk_def)
  have "\<forall>i\<in>set [0..<length sk]. i < length sk \<and> (\<exists>r. map_of pop (sk ! i) = Some r)"
  proof
    fix i assume "i \<in> set [0..<length sk]"
    then have i: "i < length sk" by simp
    then have "sk ! i \<in> set sk" by simp
    then have "sk ! i \<in> set (map fst pop)" by (simp add: sk_def)
    from key_map_of_Some[OF this] i
    show "i < length sk \<and> (\<exists>r. map_of pop (sk ! i) = Some r)" by simp
  qed
  from pop_rows_loop[OF this, of "[]"] obtain new where
    "for_each (\<lambda>rows i.
          andthen (index sk i) (\<lambda>zc.
          andthen (lookup pop zc) (\<lambda>r.
          Inr (rows @ [(i, zc, r)])))) [] [0..<length sk] = Inr new"
    "map fst new = [0..<length sk]" "map (\<lambda>row. fst (snd row)) new = map (\<lambda>i. sk ! i) [0..<length sk]"
    "\<forall>row\<in>set new. map_of pop (fst (snd row)) = Some (snd (snd row))"
    by auto
  then show ?thesis
    unfolding pop_rows_def Let_def sk_def[symmetric]
    by (simp add: map_nth len[symmetric])
qed

lemma sort_distinct_keys:
  "distinct ks \<Longrightarrow> sort ks = sorted_list_of_set (set ks)"
  by (simp add: sorted_list_of_set_sort_remdups distinct_remdups_id)

lemma chicago_rows_Inr:
  assumes "chicago_rows F cf vf af = Inr rows"
  shows "\<exists>pop. chicago_pop F cf vf af = Inr pop \<and> final_inv F cf vf af pop
     \<and> map fst rows = [0..<length rows]
     \<and> map (\<lambda>row. fst (snd row)) rows = sorted_list_of_set (set (case_codes cf))
     \<and> (\<forall>row\<in>set rows. map_of pop (fst (snd row)) = Some (snd (snd row)))"
proof -
  from assms obtain pop where pop: "chicago_pop F cf vf af = Inr pop" and rows: "pop_rows pop = Inr rows"
    by (auto simp: chicago_rows_def andthen_Inr_iff)
  from chicago_pop_inv[OF pop] have inv: "final_inv F cf vf af pop" .
  then have d: "distinct (map fst pop)" and k: "set (map fst pop) = set (case_codes cf)"
    by (simp_all add: final_inv_def)
  from pop_rows_Inr[of pop] rows have
    r1: "map fst rows = [0..<length pop]" and
    r2: "map (\<lambda>row. fst (snd row)) rows = sort (map fst pop)" and
    r3: "\<forall>row\<in>set rows. map_of pop (fst (snd row)) = Some (snd (snd row))"
    by auto
  from r1 have "length rows = length pop" by (metis length_map length_upt minus_nat.diff_0)
  with r1 have r1': "map fst rows = [0..<length rows]" by simp
  from r2 have "map (\<lambda>row. fst (snd row)) rows = sorted_list_of_set (set (case_codes cf))"
    using k by (simp add: sort_distinct_keys[OF d])
  with pop inv r1' r3 show ?thesis by blast
qed

lemma keys_of_map_of: "zc \<in> set (map fst p) \<longleftrightarrow> map_of p zc \<noteq> None"
  by (simp add: map_of_eq_None_iff)

lemma case_step_total:
  "(\<exists>q. case_step F p line = Inr q) \<longleftrightarrow>
     line \<noteq> [] \<and> (is_data line \<longrightarrow>
        (\<exists>zc. row_code line = Inr zc) \<and> (\<exists>xy. case_coords F line = Inr xy)
        \<and> (\<exists>v. case_count line = Inr v))"
proof (cases line)
  case Nil
  then show ?thesis by (simp add: case_step_eq)
next
  case (Cons c cs)
  show ?thesis
  proof (cases "isdigit c")
    case False
    with Cons show ?thesis by (simp add: case_step_eq)
  next
    case True
    show ?thesis
    proof (cases "row_code line")
      case (Inl e)
      with Cons True show ?thesis by (simp add: case_step_eq)
    next
      case zc: (Inr zc)
      show ?thesis
      proof (cases "case_coords F line")
        case (Inl e)
        with Cons True zc show ?thesis by (simp add: case_step_eq)
      next
        case xy: (Inr xy)
        show ?thesis
        proof (cases "case_count line")
          case (Inl e)
          with Cons True zc xy show ?thesis by (cases xy) (simp add: case_step_eq)
        next
          case (Inr v)
          with Cons True zc xy show ?thesis by (cases xy) (simp add: case_step_eq)
        qed
      qed
    qed
  qed
qed

lemma for_each_total:
  assumes "\<And>st x. x \<in> set xs \<Longrightarrow> (\<exists>st'. step st x = Inr st') \<longleftrightarrow> ok x"
  shows "(\<exists>st'. for_each step st xs = Inr st') \<longleftrightarrow> (\<forall>x\<in>set xs. ok x)"
  using assms
proof (induction xs arbitrary: st)
  case Nil
  then show ?case by simp
next
  case (Cons x xs)
  have IH: "(\<exists>st'. for_each step st xs = Inr st') \<longleftrightarrow> (\<forall>x\<in>set xs. ok x)" for st
    by (rule Cons.IH) (simp add: Cons.prems)
  have hd: "(\<exists>st'. step st x = Inr st') \<longleftrightarrow> ok x" by (rule Cons.prems) simp
  show ?case
  proof (cases "step st x")
    case (Inl e)
    with hd show ?thesis by auto
  next
    case (Inr st1)
    with hd have "ok x" by auto
    with Inr IH[of st1] show ?thesis by simp
  qed
qed

lemma case_phase_total:
  "(\<exists>q. for_each (case_step F) p cf = Inr q) \<longleftrightarrow> (\<forall>line\<in>set cf. \<exists>q. case_step F [] line = Inr q)"
  by (rule for_each_total) (simp add: case_step_total)

lemma for_each_total_inv:
  assumes ok: "\<And>st x. x \<in> set xs \<Longrightarrow> I st \<Longrightarrow> (\<exists>st'. step st x = Inr st') \<longleftrightarrow> ok x"
    and pres: "\<And>st x st'. x \<in> set xs \<Longrightarrow> I st \<Longrightarrow> step st x = Inr st' \<Longrightarrow> I st'"
    and init: "I st"
  shows "(\<exists>st'. for_each step st xs = Inr st') \<longleftrightarrow> (\<forall>x\<in>set xs. ok x)"
  using assms
proof (induction xs arbitrary: st)
  case Nil
  then show ?case by simp
next
  case (Cons x xs)
  have hd: "(\<exists>st'. step st x = Inr st') \<longleftrightarrow> ok x" by (rule Cons.prems(1)) (simp_all add: Cons.prems(3))
  show ?case
  proof (cases "step st x")
    case (Inl e)
    with hd show ?thesis by auto
  next
    case (Inr st1)
    with hd have "ok x" by auto
    have "I st1" by (rule Cons.prems(2)[OF _ Cons.prems(3) Inr]) simp
    have "(\<exists>st'. for_each step st1 xs = Inr st') \<longleftrightarrow> (\<forall>x\<in>set xs. ok x)"
    proof (rule Cons.IH)
      show "(\<exists>st'. step st y = Inr st') = ok y" if "y \<in> set xs" "I st" for st y
        using that by (intro Cons.prems(1)) simp_all
      show "I st'" if "y \<in> set xs" "I st" "step st y = Inr st'" for st y st'
        using that by (intro Cons.prems(2)[of y st st']) simp_all
      show "I st1" by fact
    qed
    with Inr \<open>ok x\<close> show ?thesis by simp
  qed
qed

lemma vacc_step_keys:
  assumes "vacc_step p x = Inr q"
  shows "map fst q = map fst p"
proof -
  from assms have "for_each vacc_step p [x] = Inr q" by simp
  from vacc_phase[OF this] show ?thesis by simp
qed

lemma vacc_step_total:
  "(\<exists>q. vacc_step p line = Inr q) \<longleftrightarrow>
     line \<noteq> [] \<and> (is_data line \<longrightarrow>
        (\<exists>zc. row_code line = Inr zc \<and> zc \<in> set (map fst p)) \<and> (\<exists>s4. column 4 line = Inr s4))"
proof (cases line)
  case Nil
  then show ?thesis by (simp add: vacc_step_eq)
next
  case (Cons c cs)
  show ?thesis
  proof (cases "isdigit c")
    case False
    with Cons show ?thesis by (simp add: vacc_step_eq)
  next
    case True
    show ?thesis
    proof (cases "row_code line")
      case (Inl e)
      with Cons True show ?thesis by (simp add: vacc_step_eq)
    next
      case zc: (Inr zc)
      show ?thesis
      proof (cases "map_of p zc")
        case None
        with Cons True zc show ?thesis by (simp add: vacc_step_eq keys_of_map_of del: set_map)
      next
        case (Some r)
        then have k: "zc \<in> set (map fst p)" by (simp add: keys_of_map_of del: set_map)
        show ?thesis
        proof (cases "column 4 line")
          case (Inl e)
          with Cons True zc Some show ?thesis by (simp add: vacc_step_eq)
        next
          case (Inr s4)
          with Cons True zc Some k show ?thesis
            by (cases "py_int s4") (simp_all add: vacc_step_eq del: set_map)
        qed
      qed
    qed
  qed
qed

lemma vacc_phase_total:
  "(\<exists>q. for_each vacc_step p vf = Inr q) \<longleftrightarrow>
     (\<forall>line\<in>set vf. line \<noteq> [] \<and> (is_data line \<longrightarrow>
        (\<exists>zc. row_code line = Inr zc \<and> zc \<in> set (map fst p)) \<and> (\<exists>s4. column 4 line = Inr s4)))"
  by (rule for_each_total_inv[where I="\<lambda>q. map fst q = map fst p"])
     (simp_all add: vacc_step_total vacc_step_keys del: set_map)

lemma adi_step_keys:
  assumes "adi_step pop a x = Inr b"
  shows "map fst b = map fst a"
proof -
  from assms have "for_each (adi_step pop) a [x] = Inr b" by simp
  from adi_phase[OF this] show ?thesis by simp
qed

lemma mean_step_keys:
  assumes "mean_step F adi p zc = Inr q"
  shows "map fst q = map fst p"
proof -
  from assms have "for_each (mean_step F adi) p [zc] = Inr q" by simp
  from mean_phase[OF this] show ?thesis by simp
qed

lemma adi_step_total:
  "(\<exists>b. adi_step pop a line = Inr b) \<longleftrightarrow>
     (\<exists>s0 c. index (adi_fields line) 0 = Inr s0 \<and> index s0 0 = Inr c
        \<and> (isdigit c \<longrightarrow> (\<exists>zc. adi_code line = Inr zc
              \<and> (zc \<in> set (map fst pop) \<longrightarrow>
                    zc \<in> set (map fst a) \<and> (\<exists>s4. index (adi_fields line) 4 = Inr s4)))))"
proof (cases "index (adi_fields line) 0")
  case (Inl e)
  then show ?thesis by (simp add: adi_step_eq)
next
  case s0: (Inr s0)
  show ?thesis
  proof (cases "index s0 0")
    case (Inl e)
    with s0 show ?thesis by (simp add: adi_step_eq)
  next
    case c: (Inr c)
    show ?thesis
    proof (cases "isdigit c")
      case False
      with s0 c show ?thesis by (simp add: adi_step_eq)
    next
      case True
      show ?thesis
      proof (cases "adi_code line")
        case (Inl e)
        with s0 c True show ?thesis by (simp add: adi_step_eq)
      next
        case zc: (Inr zc)
        show ?thesis
        proof (cases "map_of pop zc = None")
          case known: True
          with s0 c True zc show ?thesis by (simp add: adi_step_eq keys_of_map_of del: set_map)
        next
          case known: False
          show ?thesis
          proof (cases "map_of a zc")
            case None
            with s0 c True zc known show ?thesis
              by (simp add: adi_step_eq keys_of_map_of del: set_map)
          next
            case (Some tn)
            then have ka: "zc \<in> set (map fst a)" by (simp add: keys_of_map_of del: set_map)
            from known have kp: "zc \<in> set (map fst pop)" by (simp add: keys_of_map_of del: set_map)
            show ?thesis
            proof (cases "index (adi_fields line) 4")
              case (Inl e)
              with s0 c True zc known Some ka kp show ?thesis
                by (cases tn) (simp add: adi_step_eq del: set_map)
            next
              case (Inr s4)
              with s0 c True zc known Some ka kp show ?thesis
                by (cases tn; cases "py_int s4") (simp_all add: adi_step_eq del: set_map)
            qed
          qed
        qed
      qed
    qed
  qed
qed

lemma adi_phase_total:
  "(\<exists>b. for_each (adi_step pop) a af = Inr b) \<longleftrightarrow>
     (\<forall>line\<in>set af. \<exists>s0 c. index (adi_fields line) 0 = Inr s0 \<and> index s0 0 = Inr c
        \<and> (isdigit c \<longrightarrow> (\<exists>zc. adi_code line = Inr zc
              \<and> (zc \<in> set (map fst pop) \<longrightarrow>
                    zc \<in> set (map fst a) \<and> (\<exists>s4. index (adi_fields line) 4 = Inr s4)))))"
  by (rule for_each_total_inv[where I="\<lambda>b. map fst b = map fst a"])
     (simp_all add: adi_step_total adi_step_keys del: set_map)

lemma mean_step_total:
  "(\<exists>q. mean_step F adi p zc = Inr q) \<longleftrightarrow>
     (\<exists>t n. map_of adi zc = Some (t, n)
        \<and> (n > 0 \<longrightarrow> (\<exists>qv. truediv F t n = Inr qv) \<and> zc \<in> set (map fst p)))"
proof (cases "map_of adi zc")
  case None
  then show ?thesis by (simp add: mean_step_eq)
next
  case (Some tn)
  obtain t n where tn: "map_of adi zc = Some (t, n)" using Some by (cases tn) simp
  show ?thesis
  proof (cases "n > 0")
    case False
    with tn show ?thesis by (simp add: mean_step_eq)
  next
    case True
    show ?thesis
    proof (cases "truediv F t n")
      case (Inl e)
      with tn True show ?thesis by (simp add: mean_step_eq)
    next
      case (Inr qv)
      with tn True show ?thesis
        by (cases "map_of p zc") (simp_all add: mean_step_eq keys_of_map_of del: set_map)
    qed
  qed
qed

lemma mean_phase_total:
  "(\<exists>q. for_each (mean_step F adi) p ks = Inr q) \<longleftrightarrow>
     (\<forall>zc\<in>set ks. \<exists>t n. map_of adi zc = Some (t, n)
        \<and> (n > 0 \<longrightarrow> (\<exists>qv. truediv F t n = Inr qv) \<and> zc \<in> set (map fst p)))"
  by (rule for_each_total_inv[where I="\<lambda>q. map fst q = map fst p"])
     (simp_all add: mean_step_total mean_step_keys del: set_map)

lemma set_oks: "set (oks f xs) = {y. \<exists>x\<in>set xs. f x = Inr y}"
  by (induction xs) (auto simp: oks_def split: sum.splits)

lemma set_case_codes:
  "set (case_codes cf) = {zc. \<exists>line\<in>set cf. is_data line \<and> row_code line = Inr zc}"
  by (auto simp: case_codes_def set_oks)

lemma set_rows_of: "set (rows_of zc cf) = {line \<in> set cf. is_data line \<and> row_code line = Inr zc}"
  by (auto simp: rows_of_def)

lemma chicago_rows_row:
  assumes "chicago_rows F cf vf af = Inr rows" "(i, zc, r) \<in> set rows"
  shows "zc \<in> set (case_codes cf)"
    and "slot_pop r = Max (insert 0 (set (oks case_count (rows_of zc cf))))"
    and "slot_vacc r = sum_list (oks vacc_count (rows_of zc vf))"
    and "oks adi_value (adi_rows_of zc af) = [] \<longrightarrow> slot_adi r = PInt 0"
    and "oks adi_value (adi_rows_of zc af) \<noteq> [] \<longrightarrow>
           (\<exists>q. truediv F (sum_list (oks adi_value (adi_rows_of zc af)))
                    (int (length (oks adi_value (adi_rows_of zc af)))) = Inr q
              \<and> slot_adi r = PFloat q)"
    and "\<exists>la lo. case_coords F (last (rows_of zc cf)) = Inr (la, lo)
            \<and> slot_lat r = PFloat la \<and> slot_lon r = PFloat lo"
proof -
  from chicago_rows_Inr[OF assms(1)] obtain pop where
    inv: "final_inv F cf vf af pop" and
    look: "\<forall>row\<in>set rows. map_of pop (fst (snd row)) = Some (snd (snd row))"
    by blast
  from look assms(2) have r: "map_of pop zc = Some r" by force
  from inv have k: "set (map fst pop) = set (case_codes cf)" by (simp add: final_inv_def)
  from map_of_Some_key[OF r] k show "zc \<in> set (case_codes cf)" by simp
  from inv have "\<forall>zc r. map_of pop zc = Some r \<longrightarrow>
        slot_pop r = Max (insert 0 (set (oks case_count (rows_of zc cf)))) \<and>
        slot_vacc r = sum_list (oks vacc_count (rows_of zc vf)) \<and>
        (oks adi_value (adi_rows_of zc af) = [] \<longrightarrow> slot_adi r = PInt 0) \<and>
        (oks adi_value (adi_rows_of zc af) \<noteq> [] \<longrightarrow>
           (\<exists>q. truediv F (sum_list (oks adi_value (adi_rows_of zc af)))
                    (int (length (oks adi_value (adi_rows_of zc af)))) = Inr q
              \<and> slot_adi r = PFloat q)) \<and>
        (\<exists>la lo. case_coords F (last (rows_of zc cf)) = Inr (la, lo)
            \<and> slot_lat r = PFloat la \<and> slot_lon r = PFloat lo)"
    by (simp add: final_inv_def)
  note f = this[rule_format, OF r]
  from f show "slot_pop r = Max (insert 0 (set (oks case_count (rows_of zc cf))))" by simp
  from f show "slot_vacc r = sum_list (oks vacc_count (rows_of zc vf))" by simp
  from f show "oks adi_value (adi_rows_of zc af) = [] \<longrightarrow> slot_adi r = PInt 0" by simp
  from f show "oks adi_value (adi_rows_of zc af) \<noteq> [] \<longrightarrow>
           (\<exists>q. truediv F (sum_list (oks adi_value (adi_rows_of zc af)))
                    (int (length (oks adi_value (adi_rows_of zc af)))) = Inr q
              \<and> slot_adi r = PFloat q)" by simp
  from f show "\<exists>la lo. case_coords F (last (rows_of zc cf)) = Inr (la, lo)
            \<and> slot_lat r = PFloat la \<and> slot_lon r = PFloat lo" by simp
qed

lemma row_code_proj: "(\<lambda>(i, zc, r). zc) = (\<lambda>row. fst (snd row))"
  by auto

lemma row_id_proj: "(\<lambda>(i, zc, r). i) = fst"
  by auto

lemma split_on_field:
  "d \<notin> set f \<Longrightarrow> split_on d cur (f @ d # rest) = (cur @ f) # split_on d [] rest"
  by (induction f arbitrary: cur) auto

lemma split_on_last_field:
  "d \<notin> set f \<Longrightarrow> split_on d cur f = [cur @ f]"
  by (induction f arbitrary: cur) auto

lemma split_on_fields:
  "\<forall>f\<in>set fs. d \<notin> set f \<Longrightarrow>
     split_on d [] (concat (map (\<lambda>f. f @ [d]) fs) @ rest) = fs @ split_on d [] rest"
proof (induction fs)
  case Nil
  then show ?case by simp
next
  case (Cons f fs)
  then have "d \<notin> set f" by simp
  from split_on_field[OF this, of "[]" "concat (map (\<lambda>f. f @ [d]) fs) @ rest"] Cons
  show ?case by simp
qed

lemma case_row_fields:
  assumes "\<forall>f\<in>set (mid @ aft). CHR '','' \<notin> set f" "CHR '','' \<notin> set eol"
  shows "str_split CHR '','' (''60601,'' @ concat (map (\<lambda>f. f @ '','') mid) @ ''18,''
            @ concat (map (\<lambda>f. f @ '','') aft) @ ''POINT (-87.62 41.88)'' @ eol)
       = ''60601'' # mid @ ''18'' # aft @ [''POINT (-87.62 41.88)'' @ eol]"
proof -
  have m: "\<forall>f\<in>set mid. CHR '','' \<notin> set f" and r: "\<forall>f\<in>set aft. CHR '','' \<notin> set f"
    using assms(1) by auto
  have 1: "split_on CHR '','' [] (''POINT (-87.62 41.88)'' @ eol) = [''POINT (-87.62 41.88)'' @ eol]"
    using assms(2) by (subst split_on_last_field) auto
  have 2: "split_on CHR '','' [] (''18'' @ CHR '','' # (concat (map (\<lambda>f. f @ '','') aft) @ ''POINT (-87.62 41.88)'' @ eol))
      = ''18'' # aft @ [''POINT (-87.62 41.88)'' @ eol]"
    using assms(2) by (subst split_on_field) (simp_all add: split_on_fields[OF r] split_on_last_field)
  have 3: "split_on CHR '','' [] (''60601'' @ CHR '','' # (concat (map (\<lambda>f. f @ '','') mid) @ ''18,''
            @ concat (map (\<lambda>f. f @ '','') aft) @ ''POINT (-87.62 41.88)'' @ eol))
      = ''60601'' # mid @ ''18'' # aft @ [''POINT (-87.62 41.88)'' @ eol]"
    using 2 by (subst split_on_field) (simp_all add: split_on_fields[OF m])
  then show ?thesis by (simp add: str_split_def)
qed

lemma vacc_row_fields:
  assumes "CHR '','' \<notin> set x" "CHR '','' \<notin> set eol"
  shows "str_split CHR '','' (''60601,'' @ x @ '',,,150'' @ eol) = [''60601'', x, [], [], ''150'' @ eol]"
proof -
  have 1: "split_on CHR '','' [] (''150'' @ eol) = [''150'' @ eol]"
    using assms(2) by (subst split_on_last_field) auto
  have 2: "split_on CHR '','' [] (x @ CHR '','' # ('',,150'' @ eol)) = [x, [], [], ''150'' @ eol]"
    using assms(1) 1 by (subst split_on_field) simp_all
  have "split_on CHR '','' [] (''60601'' @ CHR '','' # (x @ '',,,150'' @ eol)) = [''60601'', x, [], [], ''150'' @ eol]"
    using 2 by (subst split_on_field) simp_all
  then show ?thesis by (simp add: str_split_def)
qed


lemma mean_no_values:
  "\<forall>zc\<in>set ks. map_of adi zc = Some (0, 0) \<Longrightarrow> for_each (mean_step F adi) pop ks = Inr pop"
  by (induction ks) (simp_all add: mean_step_eq)

lemma adi_no_effect:
  assumes "\<forall>line\<in>set af. adi_step pop adi line = Inr adi"
  shows "for_each (adi_step pop) adi af = Inr adi"
  using assms by (induction af) simp_all

lemma adi_step_header:
  assumes "hd (adi_fields line) = c # cs" "\<not> isdigit c"
  shows "adi_step pop adi line = Inr adi"
  using assms by (simp add: adi_step_eq adi_fields_def index_0_split)

lemma adi_step_unknown:
  assumes "adi_is_data line" "adi_code line = Inr zc" "map_of pop zc = None"
  shows "adi_step pop adi line = Inr adi"
proof -
  from assms(1) obtain s0 c where "index (adi_fields line) 0 = Inr s0" "index s0 0 = Inr c" "isdigit c"
    unfolding adi_is_data_iff by blast
  with assms(2,3) show ?thesis by (simp add: adi_step_eq)
qed

lemma adi_step_invalid:
  assumes "adi_is_data line" "adi_code line = Inr zc" "map_of adi zc = Some tn"
    "index (adi_fields line) 4 = Inr s4" "py_int s4 = Inl e"
  shows "adi_step pop adi line = Inr adi"
proof -
  from assms(1) obtain s0 c where "index (adi_fields line) 0 = Inr s0" "index s0 0 = Inr c" "isdigit c"
    unfolding adi_is_data_iff by blast
  with assms(2-) show ?thesis by (cases tn) (simp add: adi_step_eq)
qed

lemma chicago_pop_same_lines:
  assumes run: "chicago_pop F cf vf af = Inr pop" and same: "set cf' = set cf"
  shows "\<exists>pop'. chicago_pop F cf' vf af = Inr pop'"
proof -
  from run obtain pop1 pop2 adi where
    p1: "for_each (case_step F) [] cf = Inr pop1" and
    p2: "for_each vacc_step pop1 vf = Inr pop2" and
    p3: "for_each (adi_step pop2) (map (\<lambda>zc. (zc, (0, 0))) (map fst pop2)) af = Inr adi" and
    p4: "for_each (mean_step F adi) pop2 (map fst pop2) = Inr pop"
    by (rule chicago_pop_phases)
  \<comment> \<open>the case loop\<close>
  have "\<exists>q. for_each (case_step F) [] cf = Inr q" using p1 by blast
  then have "\<forall>line\<in>set cf'. \<exists>q. case_step F [] line = Inr q"
    unfolding case_phase_total same .
  then have "\<exists>q. for_each (case_step F) [] cf' = Inr q"
    unfolding case_phase_total .
  then obtain pop1' where p1': "for_each (case_step F) [] cf' = Inr pop1'" ..
  have "set (map fst pop1) = set (case_codes cf)" "set (map fst pop1') = set (case_codes cf')"
    using case_phase_inv[OF p1] case_phase_inv[OF p1'] by (simp_all add: case_inv_def)
  then have k1: "set (map fst pop1') = set (map fst pop1)"
    by (simp only: set_case_codes same)
  \<comment> \<open>the vaccination loop\<close>
  have "\<exists>q. for_each vacc_step pop1 vf = Inr q" using p2 by blast
  then have "\<exists>q. for_each vacc_step pop1' vf = Inr q"
    unfolding vacc_phase_total k1 .
  then obtain pop2' where p2': "for_each vacc_step pop1' vf = Inr pop2'" ..
  have k2: "set (map fst pop2') = set (map fst pop2)"
    using vacc_phase[OF p2] vacc_phase[OF p2'] k1 by simp
  \<comment> \<open>the ADI loop\<close>
  have ka: "set (map fst (map (\<lambda>zc. (zc, (0::int, 0::int))) (map fst pop2')))
      = set (map fst (map (\<lambda>zc. (zc, (0::int, 0::int))) (map fst pop2)))"
    using k2 by (simp add: comp_def)
  have "\<exists>b. for_each (adi_step pop2) (map (\<lambda>zc. (zc, (0, 0))) (map fst pop2)) af = Inr b"
    using p3 by blast
  then have "\<exists>b. for_each (adi_step pop2') (map (\<lambda>zc. (zc, (0, 0))) (map fst pop2')) af = Inr b"
    unfolding adi_phase_total k2 ka .
  then obtain adi' where
    p3': "for_each (adi_step pop2') (map (\<lambda>zc. (zc, (0, 0))) (map fst pop2')) af = Inr adi'" ..
  have tally: "map_of adi zc = Some (sum_list (oks adi_value (adi_rows_of zc af)),
                               int (length (oks adi_value (adi_rows_of zc af))))"
    if "zc \<in> set (map fst pop2)" for zc
  proof -
    from that have "map_of (map (\<lambda>zc. (zc, (0::int, 0::int))) (map fst pop2)) zc = Some (0, 0)"
      by (simp only: map_of_zero_tally if_True)
    moreover from that have "map_of pop2 zc \<noteq> None" by (simp add: keys_of_map_of del: set_map)
    ultimately show ?thesis
      using adi_phase[OF p3, THEN conjunct2, rule_format, of zc 0 0] by simp
  qed
  have tally': "map_of adi' zc = Some (sum_list (oks adi_value (adi_rows_of zc af)),
                               int (length (oks adi_value (adi_rows_of zc af))))"
    if "zc \<in> set (map fst pop2')" for zc
  proof -
    from that have "map_of (map (\<lambda>zc. (zc, (0::int, 0::int))) (map fst pop2')) zc = Some (0, 0)"
      by (simp only: map_of_zero_tally if_True)
    moreover from that have "map_of pop2' zc \<noteq> None" by (simp add: keys_of_map_of del: set_map)
    ultimately show ?thesis
      using adi_phase[OF p3', THEN conjunct2, rule_format, of zc 0 0] by simp
  qed
  \<comment> \<open>the averaging loop\<close>
  have "\<exists>q. for_each (mean_step F adi) pop2 (map fst pop2) = Inr q" using p4 by blast
  then have m: "\<forall>zc\<in>set (map fst pop2). \<exists>t n. map_of adi zc = Some (t, n)
        \<and> (n > 0 \<longrightarrow> (\<exists>qv. truediv F t n = Inr qv) \<and> zc \<in> set (map fst pop2))"
    unfolding mean_phase_total .
  have "\<forall>zc\<in>set (map fst pop2'). \<exists>t n. map_of adi' zc = Some (t, n)
        \<and> (n > 0 \<longrightarrow> (\<exists>qv. truediv F t n = Inr qv) \<and> zc \<in> set (map fst pop2'))"
  proof
    fix zc assume zc': "zc \<in> set (map fst pop2')"
    then have zc: "zc \<in> set (map fst pop2)" by (simp only: k2)
    from m zc obtain t n where tn: "map_of adi zc = Some (t, n)"
      and q: "n > 0 \<longrightarrow> (\<exists>qv. truediv F t n = Inr qv)" by blast
    from tn tally[OF zc] tally'[OF zc'] have "map_of adi' zc = Some (t, n)" by simp
    with q zc' show "\<exists>t n. map_of adi' zc = Some (t, n)
        \<and> (n > 0 \<longrightarrow> (\<exists>qv. truediv F t n = Inr qv) \<and> zc \<in> set (map fst pop2'))"
      by blast
  qed
  then have "\<exists>q. for_each (mean_step F adi') pop2' (map fst pop2') = Inr q"
    unfolding mean_phase_total .
  then obtain pop' where p4': "for_each (mean_step F adi') pop2' (map fst pop2') = Inr pop'" ..
  have "chicago_pop F cf' vf af = Inr pop'"
    by (simp only: chicago_pop_def p1' p2' andthen_simps Let_def p3' p4')
  then show ?thesis ..
qed

lemma chicago_rows_same_lines:
  assumes run: "chicago_rows F cf vf af = Inr rows" and same: "set cf' = set cf"
  shows "\<exists>rows'. chicago_rows F cf' vf af = Inr rows'"
proof -
  from run obtain pop where "chicago_pop F cf vf af = Inr pop"
    by (auto simp: chicago_rows_def andthen_Inr_iff)
  from chicago_pop_same_lines[OF this same] obtain pop' where
    pop': "chicago_pop F cf' vf af = Inr pop'" ..
  from pop_rows_Inr[of pop'] obtain rows' where "pop_rows pop' = Inr rows'" by blast
  with pop' have "chicago_rows F cf' vf af = Inr rows'" by (simp add: chicago_rows_def)
  then show ?thesis ..
qed

lemma rows_by_code:
  "\<forall>(i, zc, r)\<in>set rows. h r = v zc \<Longrightarrow>
     map (\<lambda>(i, zc, r). (i, zc, h r)) rows
       = map (\<lambda>(i, zc). (i, zc, v zc)) (zip (map fst rows) (map (\<lambda>row. fst (snd row)) rows))"
  by (induction rows) auto

lemma rows_determined:
  assumes ids: "map fst rows = map fst rows'"
    and codes: "map (\<lambda>row. fst (snd row)) rows = map (\<lambda>row. fst (snd row)) rows'"
    and vals: "\<forall>(i, zc, r)\<in>set rows. h r = v zc"
    and vals': "\<forall>(i, zc, r)\<in>set rows'. h r = v zc"
  shows "map (\<lambda>(i, zc, r). (i, zc, h r)) rows = map (\<lambda>(i, zc, r). (i, zc, h r)) rows'"
  by (simp only: rows_by_code[OF vals] rows_by_code[OF vals'] ids codes)

lemma for_each_drop_noop:
  assumes "\<And>st. for_each step st0 pre = Inr st \<Longrightarrow> step st x = Inr st"
  shows "for_each step st0 (pre @ x # post) = for_each step st0 (pre @ post)"
proof (cases "for_each step st0 pre")
  case (Inl e)
  then show ?thesis by (simp add: for_each_append)
next
  case (Inr st)
  with assms[OF Inr] show ?thesis by (simp add: for_each_append)
qed

lemma for_each_stop:
  assumes "\<And>st. for_each step st0 pre = Inr st \<Longrightarrow> step st x = Inl e"
  shows "\<exists>e'. for_each step st0 (pre @ x # post) = Inl e'"
    and "for_each step st0 pre = Inr st \<Longrightarrow> for_each step st0 (pre @ x # post) = Inl e"
proof -
  show "\<exists>e'. for_each step st0 (pre @ x # post) = Inl e'"
  proof (cases "for_each step st0 pre")
    case (Inl e)
    then show ?thesis by (simp add: for_each_append)
  next
    case (Inr st)
    with assms[OF Inr] show ?thesis by (simp add: for_each_append)
  qed
  show "for_each step st0 (pre @ x # post) = Inl e" if "for_each step st0 pre = Inr st"
    using that assms[OF that] by (simp add: for_each_append)
qed

lemma vacc_step_skip:
  assumes "is_data line" "row_code line = Inr zc" "zc \<in> set (map fst pop)"
    "column 4 line = Inr s4" "py_int s4 = Inl e"
  shows "vacc_step pop line = Inr pop"
proof -
  from key_map_of_Some[OF assms(3)] obtain r where "map_of pop zc = Some r" ..
  with assms show ?thesis
    by (cases line) (simp_all add: vacc_step_eq)
qed

lemma vacc_step_unknown:
  assumes "is_data line" "row_code line = Inr zc" "zc \<notin> set (map fst pop)"
  shows "vacc_step pop line = Inl KeyError"
proof -
  from assms(3) have "map_of pop zc = None" by (simp add: map_of_eq_None_iff)
  with assms show ?thesis
    by (cases line) (simp_all add: vacc_step_eq)
qed

lemma vacc_phase_keys:
  "for_each vacc_step p vf = Inr q \<Longrightarrow> map fst q = map fst p"
  using vacc_phase by blast

lemma case_phase_keys:
  "for_each (case_step F) [] cf = Inr pop1 \<Longrightarrow> set (map fst pop1) = set (case_codes cf)"
  using case_phase_inv[of F cf pop1] by (simp add: case_inv_def)

lemma process_chicago_vacc_skip:
  assumes "is_data line" "row_code line = Inr zc" "zc \<in> set (case_codes cf)"
    "column 4 line = Inr s4" "py_int s4 = Inl e"
  shows "process_chicago F cf (pre @ line # post) af = process_chicago F cf (pre @ post) af"
proof (cases "for_each (case_step F) [] cf")
  case (Inl e)
  then show ?thesis by (simp add: process_chicago_def chicago_rows_def chicago_pop_def)
next
  case (Inr pop1)
  have "for_each vacc_step pop1 (pre @ line # post) = for_each vacc_step pop1 (pre @ post)"
  proof (rule for_each_drop_noop)
    fix m assume "for_each vacc_step pop1 pre = Inr m"
    then have "map fst m = map fst pop1" by (rule vacc_phase_keys)
    then have "set (map fst m) = set (case_codes cf)"
      by (simp only: case_phase_keys[OF Inr])
    with assms show "vacc_step m line = Inr m" by (intro vacc_step_skip) auto
  qed
  then show ?thesis by (simp add: process_chicago_def chicago_rows_def chicago_pop_def Inr)
qed

lemma process_chicago_vacc_unknown:
  assumes "is_data line" "row_code line = Inr zc" "zc \<notin> set (case_codes cf)"
  shows "\<exists>e. process_chicago F cf (pre @ line # post) af = Inl e"
    and "for_each (case_step F) [] cf = Inr pop1 \<Longrightarrow> for_each vacc_step pop1 pre = Inr m
          \<Longrightarrow> process_chicago F cf (pre @ line # post) af = Inl KeyError"
proof -
  have stop: "vacc_step m line = Inl KeyError"
    if "for_each (case_step F) [] cf = Inr pop1" "for_each vacc_step pop1 pre = Inr m" for pop1 m
  proof -
    from that(2) have "map fst m = map fst pop1" by (rule vacc_phase_keys)
    then have "set (map fst m) = set (case_codes cf)"
      by (simp only: case_phase_keys[OF that(1)])
    with assms show ?thesis by (intro vacc_step_unknown) auto
  qed
  show "\<exists>e. process_chicago F cf (pre @ line # post) af = Inl e"
  proof (cases "for_each (case_step F) [] cf")
    case (Inl e)
    then show ?thesis by (simp add: process_chicago_def chicago_rows_def chicago_pop_def)
  next
    case (Inr pop1)
    from for_each_stop(1)[of vacc_step pop1 pre line KeyError post, OF stop[OF Inr]]
    obtain e' where "for_each vacc_step pop1 (pre @ line # post) = Inl e'" by blast
    then show ?thesis by (simp add: process_chicago_def chicago_rows_def chicago_pop_def Inr)
  qed
  show "process_chicago F cf (pre @ line # post) af = Inl KeyError"
    if a: "for_each (case_step F) [] cf = Inr pop1" and b: "for_each vacc_step pop1 pre = Inr m"
  proof -
    from for_each_stop(2)[of vacc_step pop1 pre line KeyError m post, OF stop[OF a] b]
    have "for_each vacc_step pop1 (pre @ line # post) = Inl KeyError" .
    then show ?thesis by (simp add: process_chicago_def chicago_rows_def chicago_pop_def a)
  qed
qed

lemma process_chicago_adi_discard:
  assumes "adi_is_data line" "adi_code line = Inr zc" "zc \<notin> set (case_codes cf)"
  shows "process_chicago F cf vf (pre @ line # post) = process_chicago F cf vf (pre @ post)"
proof (cases "for_each (case_step F) [] cf")
  case (Inl e)
  then show ?thesis by (simp add: process_chicago_def chicago_rows_def chicago_pop_def)
next
  case p1: (Inr pop1)
  show ?thesis
  proof (cases "for_each vacc_step pop1 vf")
    case (Inl e)
    then show ?thesis by (simp add: process_chicago_def chicago_rows_def chicago_pop_def p1)
  next
    case p2: (Inr pop2)
    have "set (map fst pop2) = set (case_codes cf)"
      using vacc_phase_keys[OF p2] case_phase_keys[OF p1] by simp
    with assms(3) have unknown: "map_of pop2 zc = None" by (simp add: map_of_eq_None_iff)
    have "for_each (adi_step pop2) a0 (pre @ line # post) = for_each (adi_step pop2) a0 (pre @ post)"
      for a0
      by (rule for_each_drop_noop) (rule adi_step_unknown[OF assms(1,2) unknown])
    then show ?thesis
      by (simp add: process_chicago_def chicago_rows_def chicago_pop_def p1 p2 Let_def)
  qed
qed

lemma sample_text_run:
  "process_chicago dec_ops sample_cases sample_vacc sample_adi = Inr (sample_pop_text, sample_fac_text)"
  by code_simp

lemma digits_val_snoc: "digits_val (xs @ [c]) = 10 * digits_val xs + digit_val c"
  by (simp add: digits_val_def)

lemma digit_val_char_of:
  assumes "0 \<le> m" "m < 10"
  shows "digit_val (char_of (48 + m)) = m"
  using assms by (simp add: digit_val_def)

lemma char_of_not_dash:
  assumes "0 \<le> (m::int)" "m < 10"
  shows "char_of (48 + m) \<noteq> CHR ''-''"
proof
  assume "char_of (48 + m) = CHR ''-''"
  then have "(of_char (char_of (48 + m) :: char) :: int) = of_char CHR ''-''" by simp
  with assms show False by simp
qed

lemma str_digits_value: "0 \<le> n \<Longrightarrow> digits_val (str_digits n) = n"
proof (induction n rule: str_digits.induct)
  case (1 n)
  show ?case
  proof (cases "n < 10")
    case True
    with "1.prems" show ?thesis
      by (simp add: str_digits.simps[of n] digits_val_def digit_val_char_of)
  next
    case False
    with "1.prems" have "digits_val (str_digits (n div 10)) = n div 10"
      by (intro "1.IH") simp_all
    moreover have "digit_val (char_of (48 + n mod 10)) = n mod 10"
      by (rule digit_val_char_of) simp_all
    ultimately show ?thesis using False
      by (simp add: str_digits.simps[of n] digits_val_snoc)
  qed
qed

lemma str_digits_no_dash: "0 \<le> n \<Longrightarrow> CHR ''-'' \<notin> set (str_digits n)"
proof (induction n rule: str_digits.induct)
  case (1 n)
  show ?case
  proof (cases "n < 10")
    case True
    with "1.prems" char_of_not_dash[of n] show ?thesis
      by (auto simp: str_digits.simps[of n])
  next
    case False
    with "1.prems" have "CHR ''-'' \<notin> set (str_digits (n div 10))"
      by (intro "1.IH") simp_all
    moreover have "char_of (48 + n mod 10) \<noteq> CHR ''-''"
      by (rule char_of_not_dash) simp_all
    ultimately show ?thesis using False
      by (auto simp: str_digits.simps[of n])
  qed
qed

lemma str_int_inj: "str_int a = str_int b \<Longrightarrow> a = b"
proof -
  assume eq: "str_int a = str_int b"
  have nodash: "str_digits n \<noteq> CHR ''-'' # s" if "0 \<le> n" for n s
  proof
    assume "str_digits n = CHR ''-'' # s"
    with str_digits_no_dash[OF that] show False by simp
  qed
  show ?thesis
  proof (cases "a < 0")
    case an: True
    show ?thesis
    proof (cases "b < 0")
      case True
      with an eq have "str_digits (- a) = str_digits (- b)" by (simp add: str_int_def)
      then have "digits_val (str_digits (- a)) = digits_val (str_digits (- b))" by simp
      with an True show ?thesis by (simp add: str_digits_value)
    next
      case False
      with an eq have "str_digits b = CHR ''-'' # str_digits (- a)" by (simp add: str_int_def)
      moreover from False have "0 \<le> b" by simp
      ultimately show ?thesis using nodash by blast
    qed
  next
    case ap: False
    show ?thesis
    proof (cases "b < 0")
      case True
      with ap eq have "str_digits a = CHR ''-'' # str_digits (- b)" by (simp add: str_int_def)
      moreover from ap have "0 \<le> a" by simp
      ultimately show ?thesis using nodash by blast
    next
      case False
      with ap eq have "digits_val (str_digits a) = digits_val (str_digits b)" by (simp add: str_int_def)
      with ap False show ?thesis by (simp add: str_digits_value)
    qed
  qed
qed

lemma process_chicago_Inr:
  assumes "process_chicago F cf vf af = Inr (pf, ff)"
  shows "\<exists>rows. chicago_rows F cf vf af = Inr rows
       \<and> pf = ''id'' @ [TAB] @ ''name'' @ [TAB] @ ''lat'' @ [TAB] @ ''lon'' @ [TAB] @ ''pop'' @ [TAB]
                @ ''vacc'' @ [TAB] @ ''adi'' @ [TAB, NL]
                @ concat (map (\<lambda>(i, zc, r).
                    concat (map (\<lambda>field. field @ [TAB])
                      [str_int (int i), str_int zc, str_pyval F (slot_lat r),
                       str_pyval F (slot_lon r), str_int (slot_pop r), str_int (slot_vacc r),
                       str_pyval F (slot_adi r)]) @ [NL]) rows)
       \<and> ff = ''id'' @ [TAB] @ ''name'' @ [TAB] @ ''lat'' @ [TAB] @ ''lon'' @ [TAB] @ ''cap'' @ [TAB, NL]"
proof -
  from assms obtain rows where rows: "chicago_rows F cf vf af = Inr rows"
    and pf: "pf = POP_HEADER @ concat (map (pop_line F) rows)" and ff: "ff = FAC_HEADER"
    by (auto simp: process_chicago_def andthen_Inr_iff)
  have "pop_line F = (\<lambda>(i, zc, r).
                        concat (map (\<lambda>field. field @ [TAB])
                          [str_int (int i), str_int zc, str_pyval F (slot_lat r),
                           str_pyval F (slot_lon r), str_int (slot_pop r), str_int (slot_vacc r),
                           str_pyval F (slot_adi r)]) @ [NL])"
    by (auto simp: pop_line_def items_def fun_eq_iff)
  with rows pf ff show ?thesis
    by (simp add: POP_HEADER_def FAC_HEADER_def)
qed

lemma process_chicago_of_rows:
  assumes "chicago_rows F cf vf af = Inr rows"
  shows "process_chicago F cf vf af =
     Inr (''id'' @ [TAB] @ ''name'' @ [TAB] @ ''lat'' @ [TAB] @ ''lon'' @ [TAB] @ ''pop'' @ [TAB]
                @ ''vacc'' @ [TAB] @ ''adi'' @ [TAB, NL]
                @ concat (map (\<lambda>(i, zc, r).
                    concat (map (\<lambda>field. field @ [TAB])
                      [str_int (int i), str_int zc, str_pyval F (slot_lat r),
                       str_pyval F (slot_lon r), str_int (slot_pop r), str_int (slot_vacc r),
                       str_pyval F (slot_adi r)]) @ [NL]) rows),
          ''id'' @ [TAB] @ ''name'' @ [TAB] @ ''lat'' @ [TAB] @ ''lon'' @ [TAB] @ ''cap'' @ [TAB, NL])"
proof -
  have "pop_line F = (\<lambda>(i, zc, r).
                        concat (map (\<lambda>field. field @ [TAB])
                          [str_int (int i), str_int zc, str_pyval F (slot_lat r),
                           str_pyval F (slot_lon r), str_int (slot_pop r), str_int (slot_vacc r),
                           str_pyval F (slot_adi r)]) @ [NL])"
    by (auto simp: pop_line_def items_def fun_eq_iff)
  with assms show ?thesis
    by (simp add: process_chicago_def POP_HEADER_def FAC_HEADER_def)
qed

section \<open>The population file\<close>

text \<open>
  C2. End to end. The case file holds one header row (a non-empty line that does not start
  with a digit) and one data row with the code 60601 in column 0, the number 18 in column
  18 and \<open>POINT (-87.62 41.88)\<close> as its last column; the other columns are any texts without
  a comma, and a line may end with a newline. The vaccination file holds the single row
  \<open>60601,x,,,150\<close>. Every line of the ADI file is a header, or belongs to another ZIP code,
  or belongs to 60601 and carries a column 4 that is not a number. The float operations
  read and print the two coordinates as written. Then \<open>process_chicago\<close> writes the
  population header followed by exactly the row \<open>0 60601 41.88 -87.62 18 150 0\<close>, each
  field followed by a tab, and the facility header.
\<close>

theorem end_to_end:
  fixes F :: "'f float_ops"
  assumes h: "h \<noteq> []" "\<not> is_data h"
    and mid: "length mid = 17" "\<forall>f\<in>set (mid @ aft). CHR '','' \<notin> set f"
    and d: "d = ''60601,'' @ concat (map (\<lambda>f. f @ '','') mid) @ ''18,''
              @ concat (map (\<lambda>f. f @ '','') aft) @ ''POINT (-87.62 41.88)'' @ eol"
    and eol: "eol = [] \<or> eol = [NL]"
    and cf: "cf = [h, d] \<or> cf = [d, h]"
    and x: "CHR '','' \<notin> set x"
    and vf: "vf = [''60601,'' @ x @ '',,,150'' @ eol']" "eol' = [] \<or> eol' = [NL]"
    and af: "\<forall>line\<in>set af.
               (\<exists>c cs. hd (adi_fields line) = c # cs \<and> \<not> isdigit c)
             \<or> (adi_is_data line \<and> (\<exists>zc. adi_code line = Inr zc \<and> zc \<noteq> 60601))
             \<or> (adi_is_data line \<and> adi_code line = Inr 60601
                  \<and> (\<exists>s4 e. index (adi_fields line) 4 = Inr s4 \<and> py_int s4 = Inl e))"
    and fl: "py_float F ''41.88'' = Inr la" "float_str F la = ''41.88''"
            "py_float F ''-87.62'' = Inr lo" "float_str F lo = ''-87.62''"
  shows "process_chicago F cf vf af =
           Inr (''id'' @ [TAB] @ ''name'' @ [TAB] @ ''lat'' @ [TAB] @ ''lon'' @ [TAB] @ ''pop'' @ [TAB]
                  @ ''vacc'' @ [TAB] @ ''adi'' @ [TAB, NL]
                  @ ''0'' @ [TAB] @ ''60601'' @ [TAB] @ ''41.88'' @ [TAB] @ ''-87.62'' @ [TAB]
                  @ ''18'' @ [TAB] @ ''150'' @ [TAB] @ ''0'' @ [TAB, NL],
                ''id'' @ [TAB] @ ''name'' @ [TAB] @ ''lat'' @ [TAB] @ ''lon'' @ [TAB] @ ''cap'' @ [TAB, NL])"
proof -
  define r1 :: "'f poprec" where
    "r1 = \<lparr>slot_lat = PFloat la, slot_lon = PFloat lo, slot_pop = 18, slot_vacc = 0, slot_adi = PInt 0\<rparr>"
  define r2 :: "'f poprec" where
    "r2 = \<lparr>slot_lat = PFloat la, slot_lon = PFloat lo, slot_pop = 18, slot_vacc = 150, slot_adi = PInt 0\<rparr>"
  have eolc: "CHR '','' \<notin> set eol" "CHR '','' \<notin> set eol'" using eol vf(2) by auto
  define pt where "pt = ''POINT (-87.62 41.88)'' @ eol"
  define v4 where "v4 = ''150'' @ eol'"
  have fields: "str_split CHR '','' d = ''60601'' # mid @ ''18'' # aft @ [pt]"
    unfolding d pt_def by (rule case_row_fields[OF mid(2) eolc(1)])
  have i1: "py_int ''60601'' = Inr 60601" by code_simp
  have i2: "py_int ''18'' = Inr 18" by code_simp
  have i3: "py_int v4 = Inr 150" unfolding v4_def using vf(2) by (elim disjE; simp; code_simp)
  have code: "row_code d = Inr 60601"
    by (simp add: row_code_def column_def fields i1)
  have cnt: "case_count d = Inr 18"
    using mid(1) by (simp add: case_count_def column_def fields index_def nth_append i2)
  have fa: "findall_class coord_char pt = [''-87.62'', ''41.88'']"
    unfolding pt_def using eol by (elim disjE; simp; code_simp)
  have ptc: "point_to_coords F pt = Inr (la, lo)"
    by (simp add: point_to_coords_def fa index_def fl)
  have xy: "case_coords F d = Inr (la, lo)"
    by (simp add: case_coords_def fields last_item_def ptc)
  have dd: "is_data d" unfolding d by (simp add: isdigit_def)
  have hstep: "case_step F pop h = Inr pop" for pop
    using h by (cases h) (simp_all add: case_step_eq)
  have dstep: "case_step F [] d = Inr [(60601, r1)]"
    using dd code cnt xy by (cases d) (simp_all add: case_step_eq entry_def new_entry_def r1_def)
  have p1: "for_each (case_step F) [] cf = Inr [(60601, r1)]"
    using cf by (elim disjE) (simp_all add: hstep dstep)
  define vrow where "vrow = ''60601,'' @ x @ '',,,150'' @ eol'"
  have vfields: "str_split CHR '','' vrow = [''60601'', x, [], [], v4]"
    unfolding v4_def vrow_def by (rule vacc_row_fields[OF x eolc(2)])
  have vd: "is_data vrow" unfolding vrow_def by (simp add: isdigit_def)
  have vcode: "row_code vrow = Inr 60601"
    by (simp add: row_code_def column_def vfields i1)
  have vcol: "column 4 vrow = Inr v4"
    by (simp add: column_def vfields index_def)
  have vstep: "vacc_step [(60601, r1)] vrow = Inr [(60601, r2)]"
    using vd vcode vcol i3 by (cases vrow) (simp_all add: vacc_step_eq r1_def r2_def)
  have p2: "for_each vacc_step [(60601, r1)] vf = Inr [(60601, r2)]"
    unfolding vf(1) vrow_def[symmetric] by (simp add: vstep)
  have astep: "adi_step [(60601, r2)] [(60601, (0, 0))] line = Inr [(60601, (0, 0))]"
    if "line \<in> set af" for line
  proof -
    from af that consider
      c cs where "hd (adi_fields line) = c # cs" "\<not> isdigit c"
      | zc where "adi_is_data line" "adi_code line = Inr zc" "zc \<noteq> 60601"
      | s4 e where "adi_is_data line" "adi_code line = Inr 60601"
          "index (adi_fields line) 4 = Inr s4" "py_int s4 = Inl e"
      by blast
    then show ?thesis
    proof cases
      case 1
      then show ?thesis by (rule adi_step_header)
    next
      case 2
      then show ?thesis by (intro adi_step_unknown[where zc=zc]) simp_all
    next
      case 3
      have "map_of [(60601::int, (0::int, 0::int))] 60601 = Some (0, 0)" by simp
      from adi_step_invalid[OF 3(1) 3(2) this 3(3) 3(4)] show ?thesis .
    qed
  qed
  have p3: "for_each (adi_step [(60601, r2)]) [(60601, (0, 0))] af = Inr [(60601, (0, 0))]"
    by (rule adi_no_effect) (simp add: astep)
  have p4: "for_each (mean_step F [(60601, (0, 0))]) [(60601, r2)] [60601] = Inr [(60601, r2)]"
    by (rule mean_no_values) simp
  have pop: "chicago_pop F cf vf af = Inr [(60601, r2)]"
    by (simp only: chicago_pop_def p1 p2 andthen_simps Let_def list.map fst_conv p3 p4)
  have rows: "chicago_rows F cf vf af = Inr [(0, 60601, r2)]"
    by (simp add: chicago_rows_def pop pop_rows_def index_def lookup_eq)
  have s0: "str_int 0 = ''0''" by code_simp
  have s1: "str_int 60601 = ''60601''" by code_simp
  have s2: "str_int 18 = ''18''" by code_simp
  have s3: "str_int 150 = ''150''" by code_simp
  show ?thesis
    by (simp add: process_chicago_def rows pop_line_def items_def r2_def POP_HEADER_def FAC_HEADER_def
        s0 s1 s2 s3 fl)
qed

theorem end_to_end_witness:
  "process_chicago dec_ops
     [''ZIP Code,Week Number'' @ [NL],
      ''60601,10,a,b,c,d,e,f,g,h,i,j,k,l,m,n,o,p,18,r,POINT (-87.62 41.88)'' @ [NL]]
     [''60601,...,,,150'' @ [NL]]
     [''ZIP_4,TYPE,X,Y,ADI_NATRANK'' @ [NL], ''606991234,a,b,c,50'' @ [NL]]
   = Inr (''id'' @ [TAB] @ ''name'' @ [TAB] @ ''lat'' @ [TAB] @ ''lon'' @ [TAB] @ ''pop'' @ [TAB]
            @ ''vacc'' @ [TAB] @ ''adi'' @ [TAB, NL]
            @ ''0'' @ [TAB] @ ''60601'' @ [TAB] @ ''41.88'' @ [TAB] @ ''-87.62'' @ [TAB]
            @ ''18'' @ [TAB] @ ''150'' @ [TAB] @ ''0'' @ [TAB, NL],
          ''id'' @ [TAB] @ ''name'' @ [TAB] @ ''lat'' @ [TAB] @ ''lon'' @ [TAB] @ ''cap'' @ [TAB, NL])"
proof -
  define h where "h = ''ZIP Code,Week Number'' @ [NL]"
  define mid where "mid = [''10'', ''a'', ''b'', ''c'', ''d'', ''e'', ''f'', ''g'', ''h'', ''i'', ''j'',
      ''k'', ''l'', ''m'', ''n'', ''o'', ''p'']"
  define a0 where "a0 = ''ZIP_4,TYPE,X,Y,ADI_NATRANK'' @ [NL]"
  define a1 where "a1 = ''606991234,a,b,c,50'' @ [NL]"
  have h1: "h \<noteq> []" and h2: "\<not> is_data h" by (simp_all add: h_def isdigit_def)
  have m1: "length mid = 17" by (simp add: mid_def)
  have m2: "\<forall>f\<in>set (mid @ [''r'']). CHR '','' \<notin> set f" by (simp add: mid_def)
  have d: "''60601,10,a,b,c,d,e,f,g,h,i,j,k,l,m,n,o,p,18,r,POINT (-87.62 41.88)'' @ [NL]
      = ''60601,'' @ concat (map (\<lambda>f. f @ '','') mid) @ ''18,''
              @ concat (map (\<lambda>f. f @ '','') [''r'']) @ ''POINT (-87.62 41.88)'' @ [NL]"
    by (simp add: mid_def)
  have x: "CHR '','' \<notin> set ''...''" by simp
  have hd0: "hd (adi_fields a0) = CHR ''Z'' # ''IP_4''" unfolding a0_def by code_simp
  have nd: "\<not> isdigit CHR ''Z''" by (simp add: isdigit_def)
  have u: "adi_is_data a1 \<and> adi_code a1 = Inr 60699" unfolding a1_def by code_simp
  have af: "\<forall>line\<in>set [a0, a1].
               (\<exists>c cs. hd (adi_fields line) = c # cs \<and> \<not> isdigit c)
             \<or> (adi_is_data line \<and> (\<exists>zc. adi_code line = Inr zc \<and> zc \<noteq> 60601))
             \<or> (adi_is_data line \<and> adi_code line = Inr 60601
                  \<and> (\<exists>s4 e. index (adi_fields line) 4 = Inr s4 \<and> py_int s4 = Inl e))"
    using hd0 nd u by auto
  have f1: "py_float dec_ops ''41.88'' = Inr (False, 4188, 2)" by code_simp
  have f2: "float_str dec_ops (False, 4188, 2) = ''41.88''" by code_simp
  have f3: "py_float dec_ops ''-87.62'' = Inr (True, 8762, 2)" by code_simp
  have f4: "float_str dec_ops (True, 8762, 2) = ''-87.62''" by code_simp
  from end_to_end[OF h1 h2 m1 m2 d _ _ x _ _ af f1 f2 f3 f4,
      of "[h, ''60601,10,a,b,c,d,e,f,g,h,i,j,k,l,m,n,o,p,18,r,POINT (-87.62 41.88)'' @ [NL]]"
         "[''60601,'' @ ''...'' @ '',,,150'' @ [NL]]" "[NL]"]
  show ?thesis
    by (simp add: h_def a0_def a1_def)
qed

text \<open>
  C3. When \<open>process_chicago\<close> returns, the population file is the header followed by one
  line per row, and the postal codes written in the second column are exactly the codes
  of the data rows of the case file (the rows that start with a digit), each once: the
  codes are pairwise distinct and so are their texts. The vaccination and ADI files are
  arbitrary: they add no code and remove none.
\<close>

theorem population_codes:
  assumes "process_chicago F cf vf af = Inr (pf, ff)"
  shows "\<exists>rows :: (nat \<times> int \<times> 'f poprec) list. pf = ''id'' @ [TAB] @ ''name'' @ [TAB] @ ''lat'' @ [TAB] @ ''lon'' @ [TAB] @ ''pop'' @ [TAB]
         @ ''vacc'' @ [TAB] @ ''adi'' @ [TAB, NL]
         @ concat (map (\<lambda>(i, zc, r).
             concat (map (\<lambda>field. field @ [TAB])
               [str_int (int i), str_int zc, str_pyval F (slot_lat r),
                str_pyval F (slot_lon r), str_int (slot_pop r), str_int (slot_vacc r),
                str_pyval F (slot_adi r)]) @ [NL]) rows)
       \<and> set (map (\<lambda>(i, zc, r). zc) rows) = set (case_codes cf)
       \<and> distinct (map (\<lambda>(i, zc, r). zc) rows)
       \<and> distinct (map (\<lambda>(i, zc, r). str_int zc) rows)"
proof -
  from process_chicago_Inr[OF assms] obtain rows where
    rows: "chicago_rows F cf vf af = Inr rows" and
    pf: "pf = ''id'' @ [TAB] @ ''name'' @ [TAB] @ ''lat'' @ [TAB] @ ''lon'' @ [TAB] @ ''pop'' @ [TAB]
           @ ''vacc'' @ [TAB] @ ''adi'' @ [TAB, NL]
           @ concat (map (\<lambda>(i, zc, r).
               concat (map (\<lambda>field. field @ [TAB])
                 [str_int (int i), str_int zc, str_pyval F (slot_lat r),
                  str_pyval F (slot_lon r), str_int (slot_pop r), str_int (slot_vacc r),
                  str_pyval F (slot_adi r)]) @ [NL]) rows)"
    by blast
  from chicago_rows_Inr[OF rows] have
    codes: "map (\<lambda>row. fst (snd row)) rows = sorted_list_of_set (set (case_codes cf))"
    and ids: "map fst rows = [0..<length rows]" by blast+
  from codes have keys: "set (map (\<lambda>(i, zc, r). zc) rows) = set (case_codes cf)"
    by (simp add: row_code_proj)
  from codes have d: "distinct (map (\<lambda>(i, zc, r). zc) rows)"
    by (simp add: row_code_proj)
  define cs where "cs = map (\<lambda>(i, zc, r). zc) rows"
  from d have "distinct cs" by (simp only: cs_def)
  moreover have "inj_on str_int (set cs)"
    by (rule inj_onI) (rule str_int_inj)
  ultimately have "distinct (map str_int cs)"
    by (simp add: distinct_map)
  moreover have "map str_int cs = map (\<lambda>(i, zc, r). str_int zc) rows"
    by (simp add: cs_def case_prod_beta comp_def)
  ultimately have ds: "distinct (map (\<lambda>(i, zc, r). str_int zc) rows)" by simp
  show ?thesis by (rule exI[of _ rows]) (rule conjI[OF pf conjI[OF keys conjI[OF d ds]]])
qed

theorem population_codes_witness:
  "process_chicago dec_ops sample_cases sample_vacc sample_adi = Inr (sample_pop_text, sample_fac_text)
   \<and> case_codes sample_cases = [60602, 60601, 60601]
   \<and> (\<exists>rows :: (nat \<times> int \<times> dec poprec) list. sample_pop_text = ''id'' @ [TAB] @ ''name'' @ [TAB] @ ''lat'' @ [TAB] @ ''lon'' @ [TAB] @ ''pop'' @ [TAB]
          @ ''vacc'' @ [TAB] @ ''adi'' @ [TAB, NL]
          @ concat (map (\<lambda>(i, zc, r).
              concat (map (\<lambda>field. field @ [TAB])
                [str_int (int i), str_int zc, str_pyval dec_ops (slot_lat r),
                 str_pyval dec_ops (slot_lon r), str_int (slot_pop r), str_int (slot_vacc r),
                 str_pyval dec_ops (slot_adi r)]) @ [NL]) rows)
        \<and> set (map (\<lambda>(i, zc, r). zc) rows) = set (case_codes sample_cases)
        \<and> distinct (map (\<lambda>(i, zc, r). zc) rows)
        \<and> distinct (map (\<lambda>(i, zc, r). str_int zc) rows))"
proof -
  have c: "case_codes sample_cases = [60602, 60601, 60601]" by code_simp
  note e = population_codes[OF sample_text_run]
  show ?thesis by (rule conjI[OF sample_text_run conjI[OF c e]])
qed

text \<open>
  C4. When \<open>process_chicago\<close> returns, the population file is the header followed by one
  line per row; the codes in the second column are in strictly ascending order and the
  ids in the first column are \<open>0, 1, ..., n - 1\<close> in that order.
\<close>

theorem population_order:
  assumes "process_chicago F cf vf af = Inr (pf, ff)"
  shows "\<exists>rows :: (nat \<times> int \<times> 'f poprec) list. pf = ''id'' @ [TAB] @ ''name'' @ [TAB] @ ''lat'' @ [TAB] @ ''lon'' @ [TAB] @ ''pop'' @ [TAB]
         @ ''vacc'' @ [TAB] @ ''adi'' @ [TAB, NL]
         @ concat (map (\<lambda>(i, zc, r).
             concat (map (\<lambda>field. field @ [TAB])
               [str_int (int i), str_int zc, str_pyval F (slot_lat r),
                str_pyval F (slot_lon r), str_int (slot_pop r), str_int (slot_vacc r),
                str_pyval F (slot_adi r)]) @ [NL]) rows)
       \<and> set (map (\<lambda>(i, zc, r). zc) rows) = set (case_codes cf)
       \<and> sorted_wrt (<) (map (\<lambda>(i, zc, r). zc) rows)
       \<and> map (\<lambda>(i, zc, r). i) rows = [0..<length rows]"
proof -
  from process_chicago_Inr[OF assms] obtain rows where
    rows: "chicago_rows F cf vf af = Inr rows" and
    pf: "pf = ''id'' @ [TAB] @ ''name'' @ [TAB] @ ''lat'' @ [TAB] @ ''lon'' @ [TAB] @ ''pop'' @ [TAB]
           @ ''vacc'' @ [TAB] @ ''adi'' @ [TAB, NL]
           @ concat (map (\<lambda>(i, zc, r).
               concat (map (\<lambda>field. field @ [TAB])
                 [str_int (int i), str_int zc, str_pyval F (slot_lat r),
                  str_pyval F (slot_lon r), str_int (slot_pop r), str_int (slot_vacc r),
                  str_pyval F (slot_adi r)]) @ [NL]) rows)"
    by blast
  from chicago_rows_Inr[OF rows] have
    codes: "map (\<lambda>row. fst (snd row)) rows = sorted_list_of_set (set (case_codes cf))"
    and ids: "map fst rows = [0..<length rows]" by blast+
  from codes have keys: "set (map (\<lambda>(i, zc, r). zc) rows) = set (case_codes cf)"
    by (simp add: row_code_proj)
  from codes have s: "sorted_wrt (<) (map (\<lambda>(i, zc, r). zc) rows)"
    by (simp add: row_code_proj)
  from ids have i: "map (\<lambda>(i, zc, r). i) rows = [0..<length rows]"
    by (simp add: row_id_proj)
  show ?thesis by (rule exI[of _ rows]) (rule conjI[OF pf conjI[OF keys conjI[OF s i]]])
qed

theorem population_order_witness:
  "process_chicago dec_ops sample_cases sample_vacc sample_adi = Inr (sample_pop_text, sample_fac_text)
   \<and> (\<exists>rows :: (nat \<times> int \<times> dec poprec) list. sample_pop_text = ''id'' @ [TAB] @ ''name'' @ [TAB] @ ''lat'' @ [TAB] @ ''lon'' @ [TAB] @ ''pop'' @ [TAB]
          @ ''vacc'' @ [TAB] @ ''adi'' @ [TAB, NL]
          @ concat (map (\<lambda>(i, zc, r).
              concat (map (\<lambda>field. field @ [TAB])
                [str_int (int i), str_int zc, str_pyval dec_ops (slot_lat r),
                 str_pyval dec_ops (slot_lon r), str_int (slot_pop r), str_int (slot_vacc r),
                 str_pyval dec_ops (slot_adi r)]) @ [NL]) rows)
        \<and> set (map (\<lambda>(i, zc, r). zc) rows) = set (case_codes sample_cases)
        \<and> sorted_wrt (<) (map (\<lambda>(i, zc, r). zc) rows)
        \<and> map (\<lambda>(i, zc, r). i) rows = [0..<length rows])"
proof -
  note e = population_order[OF sample_text_run]
  show ?thesis by (rule conjI[OF sample_text_run e])
qed

text \<open>
  C5, as amended. When \<open>process_chicago\<close> returns, the population file is the header
  followed by one line per code of the case file, and the \<open>pop\<close> column of a line (the
  fifth field) is the text of the maximum of 0 and all the counts in column 18 of the case
  rows of that code: the slot starts at 0 and each row takes the maximum. The claim as
  stated, the maximum of the counts themselves, fails when every count of a code is
  negative (see the counterexample below). After any reordering of the case rows the run
  returns as well, and the ids, codes and \<open>pop\<close> values of its lines are the same.
\<close>

theorem pop_field_max:
  assumes "process_chicago F cf vf af = Inr (pf, ff)"
  shows "\<exists>rows :: (nat \<times> int \<times> 'f poprec) list. pf = ''id'' @ [TAB] @ ''name'' @ [TAB] @ ''lat'' @ [TAB] @ ''lon'' @ [TAB] @ ''pop'' @ [TAB]
         @ ''vacc'' @ [TAB] @ ''adi'' @ [TAB, NL]
         @ concat (map (\<lambda>(i, zc, r).
             concat (map (\<lambda>field. field @ [TAB])
               [str_int (int i), str_int zc, str_pyval F (slot_lat r),
                str_pyval F (slot_lon r), str_int (slot_pop r), str_int (slot_vacc r),
                str_pyval F (slot_adi r)]) @ [NL]) rows)
       \<and> set (map (\<lambda>(i, zc, r). zc) rows) = set (case_codes cf)
       \<and> (\<forall>(i, zc, r)\<in>set rows.
             slot_pop r = Max (insert 0 (set (oks case_count (rows_of zc cf)))))
       \<and> (\<forall>cf'. mset cf' = mset cf \<longrightarrow>
             (\<exists>pf' (rows' :: (nat \<times> int \<times> 'f poprec) list). process_chicago F cf' vf af = Inr (pf', ff)
                \<and> pf' = ''id'' @ [TAB] @ ''name'' @ [TAB] @ ''lat'' @ [TAB] @ ''lon'' @ [TAB] @ ''pop'' @ [TAB]
                   @ ''vacc'' @ [TAB] @ ''adi'' @ [TAB, NL]
                   @ concat (map (\<lambda>(i, zc, r).
                       concat (map (\<lambda>field. field @ [TAB])
                         [str_int (int i), str_int zc, str_pyval F (slot_lat r),
                          str_pyval F (slot_lon r), str_int (slot_pop r), str_int (slot_vacc r),
                          str_pyval F (slot_adi r)]) @ [NL]) rows')
                \<and> map (\<lambda>(i, zc, r). (i, zc, slot_pop r)) rows' = map (\<lambda>(i, zc, r). (i, zc, slot_pop r)) rows))"
proof -
  from process_chicago_Inr[OF assms] obtain rows where
    rows: "chicago_rows F cf vf af = Inr rows" and
    pf: "pf = ''id'' @ [TAB] @ ''name'' @ [TAB] @ ''lat'' @ [TAB] @ ''lon'' @ [TAB] @ ''pop'' @ [TAB]
           @ ''vacc'' @ [TAB] @ ''adi'' @ [TAB, NL]
           @ concat (map (\<lambda>(i, zc, r).
               concat (map (\<lambda>field. field @ [TAB])
                 [str_int (int i), str_int zc, str_pyval F (slot_lat r),
                  str_pyval F (slot_lon r), str_int (slot_pop r), str_int (slot_vacc r),
                  str_pyval F (slot_adi r)]) @ [NL]) rows)"
    by blast
  from chicago_rows_Inr[OF rows] have
    codes: "map (\<lambda>row. fst (snd row)) rows = sorted_list_of_set (set (case_codes cf))"
    and ids: "map fst rows = [0..<length rows]" by blast+
  from codes have keys: "set (map (\<lambda>(i, zc, r). zc) rows) = set (case_codes cf)"
    by (simp add: row_code_proj)
  from process_chicago_Inr[OF assms] have
    ff: "ff = ''id'' @ [TAB] @ ''name'' @ [TAB] @ ''lat'' @ [TAB] @ ''lon'' @ [TAB] @ ''cap'' @ [TAB, NL]"
    by blast
  have vals: "\<forall>(i, zc, r)\<in>set rows.
            slot_pop r = Max (insert 0 (set (oks case_count (rows_of zc cf))))"
    using chicago_rows_row(2)[OF rows] by blast
  have perm: "\<exists>pf' (rows' :: (nat \<times> int \<times> 'f poprec) list). process_chicago F cf' vf af = Inr (pf', ff)
         \<and> pf' = ''id'' @ [TAB] @ ''name'' @ [TAB] @ ''lat'' @ [TAB] @ ''lon'' @ [TAB] @ ''pop'' @ [TAB]
                @ ''vacc'' @ [TAB] @ ''adi'' @ [TAB, NL]
                @ concat (map (\<lambda>(i, zc, r).
                    concat (map (\<lambda>field. field @ [TAB])
                      [str_int (int i), str_int zc, str_pyval F (slot_lat r),
                       str_pyval F (slot_lon r), str_int (slot_pop r), str_int (slot_vacc r),
                       str_pyval F (slot_adi r)]) @ [NL]) rows')
         \<and> map (\<lambda>(i, zc, r). (i, zc, slot_pop r)) rows' = map (\<lambda>(i, zc, r). (i, zc, slot_pop r)) rows"
    if "mset cf' = mset cf" for cf'
  proof -
    from that have same: "set cf' = set cf" by (rule mset_eq_setD)
    from chicago_rows_same_lines[OF rows same] obtain rows' where
      run': "chicago_rows F cf' vf af = Inr rows'" ..
    have codes_eq: "set (case_codes cf') = set (case_codes cf)"
      by (simp only: set_case_codes same)
    from chicago_rows_Inr[OF run'] have
      ids': "map fst rows' = [0..<length rows']" and
      codes': "map (\<lambda>row. fst (snd row)) rows' = sorted_list_of_set (set (case_codes cf))"
      unfolding codes_eq by blast+
    from codes codes' have c: "map (\<lambda>row. fst (snd row)) rows' = map (\<lambda>row. fst (snd row)) rows"
      by simp
    then have "length rows' = length rows" by (rule map_eq_imp_length_eq)
    with ids ids' have i: "map fst rows' = map fst rows" by simp
    have "set (oks case_count (rows_of zc cf')) = set (oks case_count (rows_of zc cf))" for zc
      by (simp only: set_oks set_rows_of same)
    then have vals': "\<forall>(i, zc, r)\<in>set rows'.
              slot_pop r = Max (insert 0 (set (oks case_count (rows_of zc cf))))"
      using chicago_rows_row(2)[OF run'] by auto
    from rows_determined[OF i c vals' vals]
    have t: "map (\<lambda>(i, zc, r). (i, zc, slot_pop r)) rows' = map (\<lambda>(i, zc, r). (i, zc, slot_pop r)) rows" .
    from process_chicago_of_rows[OF run'] ff t show ?thesis by blast
  qed
  from perm have perms: "\<forall>cf'. mset cf' = mset cf \<longrightarrow>
             (\<exists>pf' (rows' :: (nat \<times> int \<times> 'f poprec) list). process_chicago F cf' vf af = Inr (pf', ff)
                \<and> pf' = ''id'' @ [TAB] @ ''name'' @ [TAB] @ ''lat'' @ [TAB] @ ''lon'' @ [TAB] @ ''pop'' @ [TAB]
                   @ ''vacc'' @ [TAB] @ ''adi'' @ [TAB, NL]
                   @ concat (map (\<lambda>(i, zc, r).
                       concat (map (\<lambda>field. field @ [TAB])
                         [str_int (int i), str_int zc, str_pyval F (slot_lat r),
                          str_pyval F (slot_lon r), str_int (slot_pop r), str_int (slot_vacc r),
                          str_pyval F (slot_adi r)]) @ [NL]) rows')
                \<and> map (\<lambda>(i, zc, r). (i, zc, slot_pop r)) rows' = map (\<lambda>(i, zc, r). (i, zc, slot_pop r)) rows)"
    by (intro allI impI)
  show ?thesis by (rule exI[of _ rows]) (rule conjI[OF pf conjI[OF keys conjI[OF vals perms]]])
qed

theorem pop_field_max_witness:
  "process_chicago dec_ops sample_cases sample_vacc sample_adi = Inr (sample_pop_text, sample_fac_text)
   \<and> oks case_count (rows_of 60601 sample_cases) = [18, 25]
   \<and> oks case_count (rows_of 60602 sample_cases) = [20]
   \<and> mset (rev sample_cases) = mset sample_cases
   \<and> (\<exists>rows :: (nat \<times> int \<times> dec poprec) list. sample_pop_text = ''id'' @ [TAB] @ ''name'' @ [TAB] @ ''lat'' @ [TAB] @ ''lon'' @ [TAB] @ ''pop'' @ [TAB]
          @ ''vacc'' @ [TAB] @ ''adi'' @ [TAB, NL]
          @ concat (map (\<lambda>(i, zc, r).
              concat (map (\<lambda>field. field @ [TAB])
                [str_int (int i), str_int zc, str_pyval dec_ops (slot_lat r),
                 str_pyval dec_ops (slot_lon r), str_int (slot_pop r), str_int (slot_vacc r),
                 str_pyval dec_ops (slot_adi r)]) @ [NL]) rows)
        \<and> set (map (\<lambda>(i, zc, r). zc) rows) = set (case_codes sample_cases)
        \<and> (\<forall>(i, zc, r)\<in>set rows.
              slot_pop r = Max (insert 0 (set (oks case_count (rows_of zc sample_cases)))))
        \<and> (\<exists>pf' (rows' :: (nat \<times> int \<times> dec poprec) list). process_chicago dec_ops (rev sample_cases) sample_vacc sample_adi = Inr (pf', sample_fac_text)
                 \<and> pf' = ''id'' @ [TAB] @ ''name'' @ [TAB] @ ''lat'' @ [TAB] @ ''lon'' @ [TAB] @ ''pop'' @ [TAB]
                    @ ''vacc'' @ [TAB] @ ''adi'' @ [TAB, NL]
                    @ concat (map (\<lambda>(i, zc, r).
                        concat (map (\<lambda>field. field @ [TAB])
                          [str_int (int i), str_int zc, str_pyval dec_ops (slot_lat r),
                           str_pyval dec_ops (slot_lon r), str_int (slot_pop r), str_int (slot_vacc r),
                           str_pyval dec_ops (slot_adi r)]) @ [NL]) rows')
                 \<and> map (\<lambda>(i, zc, r). (i, zc, slot_pop r)) rows' = map (\<lambda>(i, zc, r). (i, zc, slot_pop r)) rows))"
proof -
  have a: "oks case_count (rows_of 60601 sample_cases) = [18, 25]" by code_simp
  have b: "oks case_count (rows_of 60602 sample_cases) = [20]" by code_simp
  have d: "mset (rev sample_cases) = mset sample_cases" by simp
  from pop_field_max[OF sample_text_run] obtain rows :: "(nat \<times> int \<times> dec poprec) list" where
    all: "sample_pop_text = ''id'' @ [TAB] @ ''name'' @ [TAB] @ ''lat'' @ [TAB] @ ''lon'' @ [TAB] @ ''pop'' @ [TAB]
           @ ''vacc'' @ [TAB] @ ''adi'' @ [TAB, NL]
           @ concat (map (\<lambda>(i, zc, r).
               concat (map (\<lambda>field. field @ [TAB])
                 [str_int (int i), str_int zc, str_pyval dec_ops (slot_lat r),
                  str_pyval dec_ops (slot_lon r), str_int (slot_pop r), str_int (slot_vacc r),
                  str_pyval dec_ops (slot_adi r)]) @ [NL]) rows)
       \<and> set (map (\<lambda>(i, zc, r). zc) rows) = set (case_codes sample_cases)
       \<and> (\<forall>(i, zc, r)\<in>set rows.
             slot_pop r = Max (insert 0 (set (oks case_count (rows_of zc sample_cases)))))
       \<and> (\<forall>cf'. mset cf' = mset sample_cases \<longrightarrow>
             (\<exists>pf' (rows' :: (nat \<times> int \<times> dec poprec) list). process_chicago dec_ops cf' sample_vacc sample_adi = Inr (pf', sample_fac_text)
                \<and> pf' = ''id'' @ [TAB] @ ''name'' @ [TAB] @ ''lat'' @ [TAB] @ ''lon'' @ [TAB] @ ''pop'' @ [TAB]
                   @ ''vacc'' @ [TAB] @ ''adi'' @ [TAB, NL]
                   @ concat (map (\<lambda>(i, zc, r).
                       concat (map (\<lambda>field. field @ [TAB])
                         [str_int (int i), str_int zc, str_pyval dec_ops (slot_lat r),
                          str_pyval dec_ops (slot_lon r), str_int (slot_pop r), str_int (slot_vacc r),
                          str_pyval dec_ops (slot_adi r)]) @ [NL]) rows')
                \<and> map (\<lambda>(i, zc, r). (i, zc, slot_pop r)) rows' = map (\<lambda>(i, zc, r). (i, zc, slot_pop r)) rows))" ..
  note 1 = all[THEN conjunct1]
  note 2 = all[THEN conjunct2, THEN conjunct1]
  note 3 = all[THEN conjunct2, THEN conjunct2, THEN conjunct1]
  note 4 = all[THEN conjunct2, THEN conjunct2, THEN conjunct2]
  from 4[rule_format, OF d] have 5:
    "\<exists>pf' (rows' :: (nat \<times> int \<times> dec poprec) list). process_chicago dec_ops (rev sample_cases) sample_vacc sample_adi = Inr (pf', sample_fac_text)
         \<and> pf' = ''id'' @ [TAB] @ ''name'' @ [TAB] @ ''lat'' @ [TAB] @ ''lon'' @ [TAB] @ ''pop'' @ [TAB]
                @ ''vacc'' @ [TAB] @ ''adi'' @ [TAB, NL]
                @ concat (map (\<lambda>(i, zc, r).
                    concat (map (\<lambda>field. field @ [TAB])
                      [str_int (int i), str_int zc, str_pyval dec_ops (slot_lat r),
                       str_pyval dec_ops (slot_lon r), str_int (slot_pop r), str_int (slot_vacc r),
                       str_pyval dec_ops (slot_adi r)]) @ [NL]) rows')
         \<and> map (\<lambda>(i, zc, r). (i, zc, slot_pop r)) rows' = map (\<lambda>(i, zc, r). (i, zc, slot_pop r)) rows" .
  have e: "\<exists>rows :: (nat \<times> int \<times> dec poprec) list. sample_pop_text = ''id'' @ [TAB] @ ''name'' @ [TAB] @ ''lat'' @ [TAB] @ ''lon'' @ [TAB] @ ''pop'' @ [TAB]
          @ ''vacc'' @ [TAB] @ ''adi'' @ [TAB, NL]
          @ concat (map (\<lambda>(i, zc, r).
              concat (map (\<lambda>field. field @ [TAB])
                [str_int (int i), str_int zc, str_pyval dec_ops (slot_lat r),
                 str_pyval dec_ops (slot_lon r), str_int (slot_pop r), str_int (slot_vacc r),
                 str_pyval dec_ops (slot_adi r)]) @ [NL]) rows)
        \<and> set (map (\<lambda>(i, zc, r). zc) rows) = set (case_codes sample_cases)
        \<and> (\<forall>(i, zc, r)\<in>set rows.
              slot_pop r = Max (insert 0 (set (oks case_count (rows_of zc sample_cases)))))
        \<and> (\<exists>pf' (rows' :: (nat \<times> int \<times> dec poprec) list). process_chicago dec_ops (rev sample_cases) sample_vacc sample_adi = Inr (pf', sample_fac_text)
                 \<and> pf' = ''id'' @ [TAB] @ ''name'' @ [TAB] @ ''lat'' @ [TAB] @ ''lon'' @ [TAB] @ ''pop'' @ [TAB]
                    @ ''vacc'' @ [TAB] @ ''adi'' @ [TAB, NL]
                    @ concat (map (\<lambda>(i, zc, r).
                        concat (map (\<lambda>field. field @ [TAB])
                          [str_int (int i), str_int zc, str_pyval dec_ops (slot_lat r),
                           str_pyval dec_ops (slot_lon r), str_int (slot_pop r), str_int (slot_vacc r),
                           str_pyval dec_ops (slot_adi r)]) @ [NL]) rows')
                 \<and> map (\<lambda>(i, zc, r). (i, zc, slot_pop r)) rows' = map (\<lambda>(i, zc, r). (i, zc, slot_pop r)) rows)"
    by (rule exI[of _ rows]) (rule conjI[OF 1 conjI[OF 2 conjI[OF 3 5]]])
  show ?thesis by (rule conjI[OF sample_text_run conjI[OF a conjI[OF b conjI[OF d e]]]])
qed

text \<open>The counterexample to C5 as stated: one case row with the count -5. The \<open>pop\<close>
  column of the line written is 0, and the only count observed for the code is -5.\<close>

theorem pop_field_max_counterexample:
  "process_chicago dec_ops
     [''60601,10,a,b,c,d,e,f,g,h,i,j,k,l,m,n,o,p,-5,r,POINT (-87.62 41.88)'' @ [NL]] [] []
     = Inr (''id'' @ [TAB] @ ''name'' @ [TAB] @ ''lat'' @ [TAB] @ ''lon'' @ [TAB] @ ''pop'' @ [TAB]
            @ ''vacc'' @ [TAB] @ ''adi'' @ [TAB, NL]
            @ ''0'' @ [TAB] @ ''60601'' @ [TAB] @ ''41.88'' @ [TAB] @ ''-87.62'' @ [TAB]
            @ ''0'' @ [TAB] @ ''0'' @ [TAB] @ ''0'' @ [TAB, NL],
          ''id'' @ [TAB] @ ''name'' @ [TAB] @ ''lat'' @ [TAB] @ ''lon'' @ [TAB] @ ''cap'' @ [TAB, NL])
   \<and> oks case_count (rows_of 60601
        [''60601,10,a,b,c,d,e,f,g,h,i,j,k,l,m,n,o,p,-5,r,POINT (-87.62 41.88)'' @ [NL]]) = [- 5]"
  by code_simp

text \<open>
  C6. When \<open>process_chicago\<close> returns, the population file is the header followed by one
  line per code of the case file, and the \<open>vacc\<close> column of a line (the sixth field) is the
  text of the sum of the values in column 4 of the vaccination rows of that code that
  convert to an integer; a row whose column 4 does not convert adds nothing. Such a row,
  when its code is known from the case file, is skipped without ending the run: the run
  with the row and the run without it have the same outcome.
\<close>

theorem vacc_field_sum:
  "(process_chicago F cf vf af = Inr (pf, ff) \<longrightarrow>
      (\<exists>rows :: (nat \<times> int \<times> 'f poprec) list. pf = ''id'' @ [TAB] @ ''name'' @ [TAB] @ ''lat'' @ [TAB] @ ''lon'' @ [TAB] @ ''pop'' @ [TAB]
           @ ''vacc'' @ [TAB] @ ''adi'' @ [TAB, NL]
           @ concat (map (\<lambda>(i, zc, r).
               concat (map (\<lambda>field. field @ [TAB])
                 [str_int (int i), str_int zc, str_pyval F (slot_lat r),
                  str_pyval F (slot_lon r), str_int (slot_pop r), str_int (slot_vacc r),
                  str_pyval F (slot_adi r)]) @ [NL]) rows)
         \<and> set (map (\<lambda>(i, zc, r). zc) rows) = set (case_codes cf)
         \<and> (\<forall>(i, zc, r)\<in>set rows. slot_vacc r = sum_list (oks vacc_count (rows_of zc vf)))))
   \<and> (is_data line \<and> row_code line = Inr known \<and> known \<in> set (case_codes cf)
        \<and> column 4 line = Inr cell \<and> py_int cell = Inl e \<longrightarrow>
      process_chicago F cf (pre @ line # post) af = process_chicago F cf (pre @ post) af)"
proof (intro conjI impI)
  assume assms: "process_chicago F cf vf af = Inr (pf, ff)"
  from process_chicago_Inr[OF assms] obtain rows where
    rows: "chicago_rows F cf vf af = Inr rows" and
    pf: "pf = ''id'' @ [TAB] @ ''name'' @ [TAB] @ ''lat'' @ [TAB] @ ''lon'' @ [TAB] @ ''pop'' @ [TAB]
           @ ''vacc'' @ [TAB] @ ''adi'' @ [TAB, NL]
           @ concat (map (\<lambda>(i, zc, r).
               concat (map (\<lambda>field. field @ [TAB])
                 [str_int (int i), str_int zc, str_pyval F (slot_lat r),
                  str_pyval F (slot_lon r), str_int (slot_pop r), str_int (slot_vacc r),
                  str_pyval F (slot_adi r)]) @ [NL]) rows)"
    by blast
  from chicago_rows_Inr[OF rows] have
    codes: "map (\<lambda>row. fst (snd row)) rows = sorted_list_of_set (set (case_codes cf))"
    and ids: "map fst rows = [0..<length rows]" by blast+
  from codes have keys: "set (map (\<lambda>(i, zc, r). zc) rows) = set (case_codes cf)"
    by (simp add: row_code_proj)
  have vals: "\<forall>(i, zc, r)\<in>set rows. slot_vacc r = sum_list (oks vacc_count (rows_of zc vf))"
    using chicago_rows_row(3)[OF rows] by blast
  show "\<exists>rows :: (nat \<times> int \<times> 'f poprec) list. pf = ''id'' @ [TAB] @ ''name'' @ [TAB] @ ''lat'' @ [TAB] @ ''lon'' @ [TAB] @ ''pop'' @ [TAB]
           @ ''vacc'' @ [TAB] @ ''adi'' @ [TAB, NL]
           @ concat (map (\<lambda>(i, zc, r).
               concat (map (\<lambda>field. field @ [TAB])
                 [str_int (int i), str_int zc, str_pyval F (slot_lat r),
                  str_pyval F (slot_lon r), str_int (slot_pop r), str_int (slot_vacc r),
                  str_pyval F (slot_adi r)]) @ [NL]) rows)
         \<and> set (map (\<lambda>(i, zc, r). zc) rows) = set (case_codes cf)
         \<and> (\<forall>(i, zc, r)\<in>set rows. slot_vacc r = sum_list (oks vacc_count (rows_of zc vf)))"
    by (rule exI[of _ rows]) (rule conjI[OF pf conjI[OF keys vals]])
next
  assume "is_data line \<and> row_code line = Inr known \<and> known \<in> set (case_codes cf)
        \<and> column 4 line = Inr cell \<and> py_int cell = Inl e"
  then have "is_data line" "row_code line = Inr known" "known \<in> set (case_codes cf)"
    "column 4 line = Inr cell" "py_int cell = Inl e" by simp_all
  then show "process_chicago F cf (pre @ line # post) af = process_chicago F cf (pre @ post) af"
    by (rule process_chicago_vacc_skip)
qed

theorem vacc_field_sum_witness:
  "process_chicago dec_ops sample_cases sample_vacc sample_adi = Inr (sample_pop_text, sample_fac_text)
   \<and> oks vacc_count (rows_of 60601 sample_vacc) = [100, 50]
   \<and> oks vacc_count (rows_of 60602 sample_vacc) = []
   \<and> (\<exists>rows :: (nat \<times> int \<times> dec poprec) list. sample_pop_text = ''id'' @ [TAB] @ ''name'' @ [TAB] @ ''lat'' @ [TAB] @ ''lon'' @ [TAB] @ ''pop'' @ [TAB]
          @ ''vacc'' @ [TAB] @ ''adi'' @ [TAB, NL]
          @ concat (map (\<lambda>(i, zc, r).
              concat (map (\<lambda>field. field @ [TAB])
                [str_int (int i), str_int zc, str_pyval dec_ops (slot_lat r),
                 str_pyval dec_ops (slot_lon r), str_int (slot_pop r), str_int (slot_vacc r),
                 str_pyval dec_ops (slot_adi r)]) @ [NL]) rows)
        \<and> set (map (\<lambda>(i, zc, r). zc) rows) = set (case_codes sample_cases)
        \<and> (\<forall>(i, zc, r)\<in>set rows. slot_vacc r = sum_list (oks vacc_count (rows_of zc sample_vacc))))
   \<and> vacc_count (''60602,01/01/2021,2,1,'' @ [NL]) = Inl ValueError
   \<and> process_chicago dec_ops sample_cases
         [''Zip Code,Date,Doses,First,Cumulative'' @ [NL],
          ''60601,01/01/2021,5,3,100'' @ [NL],
          ''60601,01/02/2021,6,4,50'' @ [NL]] sample_adi
       = Inr (sample_pop_text, sample_fac_text)"
proof -
  have a: "oks vacc_count (rows_of 60601 sample_vacc) = [100, 50]" by code_simp
  have b: "oks vacc_count (rows_of 60602 sample_vacc) = []" by code_simp
  have d: "vacc_count (''60602,01/01/2021,2,1,'' @ [NL]) = Inl ValueError" by code_simp
  have h: "is_data (''60602,01/01/2021,2,1,'' @ [NL])
      \<and> row_code (''60602,01/01/2021,2,1,'' @ [NL]) = Inr 60602
      \<and> 60602 \<in> set (case_codes sample_cases)
      \<and> column 4 (''60602,01/01/2021,2,1,'' @ [NL]) = Inr [NL]
      \<and> py_int [NL] = Inl ValueError"
    by code_simp
  have split: "sample_vacc =
      [''Zip Code,Date,Doses,First,Cumulative'' @ [NL], ''60601,01/01/2021,5,3,100'' @ [NL]]
      @ (''60602,01/01/2021,2,1,'' @ [NL]) # [''60601,01/02/2021,6,4,50'' @ [NL]]"
    by (simp add: sample_vacc_def)
  note inst = vacc_field_sum[where F=dec_ops and cf=sample_cases and vf=sample_vacc
      and af=sample_adi and pf=sample_pop_text and ff=sample_fac_text
      and line="''60602,01/01/2021,2,1,'' @ [NL]"
      and known=60602 and cell="[NL]" and e=ValueError
      and pre="[''Zip Code,Date,Doses,First,Cumulative'' @ [NL], ''60601,01/01/2021,5,3,100'' @ [NL]]"
      and post="[''60601,01/02/2021,6,4,50'' @ [NL]]"]
  note c = inst[THEN conjunct1, rule_format, OF sample_text_run]
  from inst[THEN conjunct2, rule_format, OF h]
  have "process_chicago dec_ops sample_cases sample_vacc sample_adi
     = process_chicago dec_ops sample_cases
         [''Zip Code,Date,Doses,First,Cumulative'' @ [NL],
          ''60601,01/01/2021,5,3,100'' @ [NL],
          ''60601,01/02/2021,6,4,50'' @ [NL]] sample_adi"
    unfolding split[symmetric] by simp
  with sample_text_run have e: "process_chicago dec_ops sample_cases
         [''Zip Code,Date,Doses,First,Cumulative'' @ [NL],
          ''60601,01/01/2021,5,3,100'' @ [NL],
          ''60601,01/02/2021,6,4,50'' @ [NL]] sample_adi
       = Inr (sample_pop_text, sample_fac_text)"
    by simp
  show ?thesis by (rule conjI[OF sample_text_run conjI[OF a conjI[OF b conjI[OF c conjI[OF d e]]]]])
qed

text \<open>
  C7. When \<open>process_chicago\<close> returns, the population file is the header followed by one
  line per code of the case file, and the \<open>adi\<close> column of a line (the seventh field) is
  the text of the quotient, by true division, of the sum by the number of the values in
  column 4 that convert to an integer, over the ADI rows whose first five characters of
  column 0 convert to that code. When there is no such value it is the text of the
  integer 0.
\<close>

theorem adi_field_mean:
  assumes "process_chicago F cf vf af = Inr (pf, ff)"
  shows "\<exists>rows :: (nat \<times> int \<times> 'f poprec) list. pf = ''id'' @ [TAB] @ ''name'' @ [TAB] @ ''lat'' @ [TAB] @ ''lon'' @ [TAB] @ ''pop'' @ [TAB]
         @ ''vacc'' @ [TAB] @ ''adi'' @ [TAB, NL]
         @ concat (map (\<lambda>(i, zc, r).
             concat (map (\<lambda>field. field @ [TAB])
               [str_int (int i), str_int zc, str_pyval F (slot_lat r),
                str_pyval F (slot_lon r), str_int (slot_pop r), str_int (slot_vacc r),
                str_pyval F (slot_adi r)]) @ [NL]) rows)
       \<and> set (map (\<lambda>(i, zc, r). zc) rows) = set (case_codes cf)
       \<and> (\<forall>(i, zc, r)\<in>set rows.
             (oks adi_value (adi_rows_of zc af) = [] \<longrightarrow> slot_adi r = PInt 0) \<and>
             (oks adi_value (adi_rows_of zc af) \<noteq> [] \<longrightarrow>
                (\<exists>q. truediv F (sum_list (oks adi_value (adi_rows_of zc af)))
                         (int (length (oks adi_value (adi_rows_of zc af)))) = Inr q
                   \<and> slot_adi r = PFloat q)))"
proof -
  from process_chicago_Inr[OF assms] obtain rows where
    rows: "chicago_rows F cf vf af = Inr rows" and
    pf: "pf = ''id'' @ [TAB] @ ''name'' @ [TAB] @ ''lat'' @ [TAB] @ ''lon'' @ [TAB] @ ''pop'' @ [TAB]
           @ ''vacc'' @ [TAB] @ ''adi'' @ [TAB, NL]
           @ concat (map (\<lambda>(i, zc, r).
               concat (map (\<lambda>field. field @ [TAB])
                 [str_int (int i), str_int zc, str_pyval F (slot_lat r),
                  str_pyval F (slot_lon r), str_int (slot_pop r), str_int (slot_vacc r),
                  str_pyval F (slot_adi r)]) @ [NL]) rows)"
    by blast
  from chicago_rows_Inr[OF rows] have
    codes: "map (\<lambda>row. fst (snd row)) rows = sorted_list_of_set (set (case_codes cf))"
    and ids: "map fst rows = [0..<length rows]" by blast+
  from codes have keys: "set (map (\<lambda>(i, zc, r). zc) rows) = set (case_codes cf)"
    by (simp add: row_code_proj)
  have vals: "\<forall>(i, zc, r)\<in>set rows.
             (oks adi_value (adi_rows_of zc af) = [] \<longrightarrow> slot_adi r = PInt 0) \<and>
             (oks adi_value (adi_rows_of zc af) \<noteq> [] \<longrightarrow>
                (\<exists>q. truediv F (sum_list (oks adi_value (adi_rows_of zc af)))
                         (int (length (oks adi_value (adi_rows_of zc af)))) = Inr q
                   \<and> slot_adi r = PFloat q))"
    using chicago_rows_row(4,5)[OF rows] by blast
  show ?thesis by (rule exI[of _ rows]) (rule conjI[OF pf conjI[OF keys vals]])
qed

theorem adi_field_mean_witness:
  "process_chicago dec_ops sample_cases sample_vacc sample_adi = Inr (sample_pop_text, sample_fac_text)
   \<and> oks adi_value (adi_rows_of 60601 sample_adi) = [30, 45]
   \<and> truediv dec_ops 75 2 = Inr (False, 375, 1)
   \<and> float_str dec_ops (False, 375, 1) = ''37.5''
   \<and> oks adi_value (adi_rows_of 60602 sample_adi) = []
   \<and> (\<exists>rows :: (nat \<times> int \<times> dec poprec) list. sample_pop_text = ''id'' @ [TAB] @ ''name'' @ [TAB] @ ''lat'' @ [TAB] @ ''lon'' @ [TAB] @ ''pop'' @ [TAB]
          @ ''vacc'' @ [TAB] @ ''adi'' @ [TAB, NL]
          @ concat (map (\<lambda>(i, zc, r).
              concat (map (\<lambda>field. field @ [TAB])
                [str_int (int i), str_int zc, str_pyval dec_ops (slot_lat r),
                 str_pyval dec_ops (slot_lon r), str_int (slot_pop r), str_int (slot_vacc r),
                 str_pyval dec_ops (slot_adi r)]) @ [NL]) rows)
        \<and> set (map (\<lambda>(i, zc, r). zc) rows) = set (case_codes sample_cases)
        \<and> (\<forall>(i, zc, r)\<in>set rows.
              (oks adi_value (adi_rows_of zc sample_adi) = [] \<longrightarrow> slot_adi r = PInt 0) \<and>
              (oks adi_value (adi_rows_of zc sample_adi) \<noteq> [] \<longrightarrow>
                 (\<exists>q. truediv dec_ops (sum_list (oks adi_value (adi_rows_of zc sample_adi)))
                          (int (length (oks adi_value (adi_rows_of zc sample_adi)))) = Inr q
                    \<and> slot_adi r = PFloat q))))"
proof -
  have a: "oks adi_value (adi_rows_of 60601 sample_adi) = [30, 45]" by code_simp
  have b: "truediv dec_ops 75 2 = Inr (False, 375, 1)" by code_simp
  have c: "float_str dec_ops (False, 375, 1) = ''37.5''" by code_simp
  have d: "oks adi_value (adi_rows_of 60602 sample_adi) = []" by code_simp
  note e = adi_field_mean[OF sample_text_run]
  show ?thesis by (rule conjI[OF sample_text_run conjI[OF a conjI[OF b conjI[OF c conjI[OF d e]]]]])
qed

text \<open>
  C8. A vaccination row that starts with a digit and whose code is not a code of the case
  file ends the run with an exception and no file is written; the exception is KeyError
  when the case file and the vaccination rows before it were read without an exception.
  An ADI row whose parent code is not a code of the case file is discarded: the run with
  the row and the run without it have the same outcome.
\<close>

theorem referential_gaps:
  "(is_data line \<and> row_code line = Inr zc \<and> zc \<notin> set (case_codes cf) \<longrightarrow>
      (\<exists>e. process_chicago F cf (pre @ line # post) af = Inl e)
      \<and> ((\<exists>pop1 m. for_each (case_step F) [] cf = Inr pop1 \<and> for_each vacc_step pop1 pre = Inr m)
           \<longrightarrow> process_chicago F cf (pre @ line # post) af = Inl KeyError))
   \<and> (adi_is_data aline \<and> adi_code aline = Inr azc \<and> azc \<notin> set (case_codes cf) \<longrightarrow>
        process_chicago F cf vf (apre @ aline # apost) = process_chicago F cf vf (apre @ apost))"
proof (intro conjI impI)
  assume a: "is_data line \<and> row_code line = Inr zc \<and> zc \<notin> set (case_codes cf)"
  then show "\<exists>e. process_chicago F cf (pre @ line # post) af = Inl e"
    by (intro process_chicago_vacc_unknown(1)[where zc=zc]) simp_all
  assume "\<exists>pop1 m. for_each (case_step F) [] cf = Inr pop1 \<and> for_each vacc_step pop1 pre = Inr m"
  then obtain pop1 m where "for_each (case_step F) [] cf = Inr pop1" "for_each vacc_step pop1 pre = Inr m"
    by blast
  with a show "process_chicago F cf (pre @ line # post) af = Inl KeyError"
    by (intro process_chicago_vacc_unknown(2)[where zc=zc and ?pop1.0=pop1 and m=m]) simp_all
next
  assume "adi_is_data aline \<and> adi_code aline = Inr azc \<and> azc \<notin> set (case_codes cf)"
  then show "process_chicago F cf vf (apre @ aline # apost) = process_chicago F cf vf (apre @ apost)"
    by (intro process_chicago_adi_discard[where zc=azc]) simp_all
qed

theorem referential_gaps_witness:
  "row_code (''60699,01/01/2021,1,1,7'' @ [NL]) = Inr 60699
   \<and> adi_code (last sample_adi) = Inr 60699
   \<and> case_codes sample_cases = [60602, 60601, 60601]
   \<and> process_chicago dec_ops sample_cases (sample_vacc @ [''60699,01/01/2021,1,1,7'' @ [NL]]) sample_adi
       = Inl KeyError
   \<and> process_chicago dec_ops sample_cases sample_vacc sample_adi
       = process_chicago dec_ops sample_cases sample_vacc (butlast sample_adi)"
proof -
  have a: "is_data (''60699,01/01/2021,1,1,7'' @ [NL])
      \<and> row_code (''60699,01/01/2021,1,1,7'' @ [NL]) = Inr 60699
      \<and> 60699 \<notin> set (case_codes sample_cases)"
    by code_simp
  have p1: "for_each (case_step dec_ops) [] sample_cases =
      Inr [(60602, \<lparr>slot_lat = PFloat (False, 4188, 2), slot_lon = PFloat (True, 8763, 2),
                      slot_pop = 20, slot_vacc = 0, slot_adi = PInt 0\<rparr>),
           (60601, \<lparr>slot_lat = PFloat (False, 4189, 2), slot_lon = PFloat (True, 8761, 2),
                      slot_pop = 25, slot_vacc = 0, slot_adi = PInt 0\<rparr>)]"
    by code_simp
  have p2: "for_each vacc_step
        ([(60602, \<lparr>slot_lat = PFloat (False, 4188, 2), slot_lon = PFloat (True, 8763, 2),
                      slot_pop = 20, slot_vacc = 0, slot_adi = PInt 0\<rparr>),
         (60601, \<lparr>slot_lat = PFloat (False, 4189, 2), slot_lon = PFloat (True, 8761, 2),
                      slot_pop = 25, slot_vacc = 0, slot_adi = PInt 0\<rparr>)] :: dec popdict) sample_vacc =
      Inr [(60602, \<lparr>slot_lat = PFloat (False, 4188, 2), slot_lon = PFloat (True, 8763, 2),
                      slot_pop = 20, slot_vacc = 0, slot_adi = PInt (0::int)\<rparr>),
           (60601, \<lparr>slot_lat = PFloat (False, 4189, 2), slot_lon = PFloat (True, 8761, 2),
                      slot_pop = 25, slot_vacc = 150, slot_adi = PInt 0\<rparr>)]"
    by code_simp
  from p1 p2 have ex: "\<exists>pop1 m. for_each (case_step dec_ops) [] sample_cases = Inr pop1
      \<and> for_each vacc_step pop1 sample_vacc = Inr m"
    by blast
  have b: "adi_is_data (last sample_adi) \<and> adi_code (last sample_adi) = Inr 60699
      \<and> 60699 \<notin> set (case_codes sample_cases)"
    by code_simp
  have c: "case_codes sample_cases = [60602, 60601, 60601]" by code_simp
  have split: "sample_adi = butlast sample_adi @ last sample_adi # []"
    by (simp add: sample_adi_def)
  note inst = referential_gaps[where F=dec_ops and cf=sample_cases
      and line="''60699,01/01/2021,1,1,7'' @ [NL]" and zc=60699 and pre=sample_vacc and post="[]"
      and af=sample_adi and vf=sample_vacc and aline="last sample_adi" and azc=60699
      and apre="butlast sample_adi" and apost="[]"]
  from inst[THEN conjunct1, rule_format, OF a, THEN conjunct2, rule_format, OF ex]
  have d: "process_chicago dec_ops sample_cases
      (sample_vacc @ [''60699,01/01/2021,1,1,7'' @ [NL]]) sample_adi = Inl KeyError" .
  from inst[THEN conjunct2, rule_format, OF b]
  have e: "process_chicago dec_ops sample_cases sample_vacc sample_adi
       = process_chicago dec_ops sample_cases sample_vacc (butlast sample_adi)"
    unfolding split[symmetric] by simp
  from a b c d e show ?thesis by simp
qed

text \<open>
  C9. When \<open>process_chicago\<close> returns, the facility file is exactly the header
  \<open>id name lat lon cap\<close>, each label followed by a tab, and a newline. The population file
  is the header \<open>id name lat lon pop vacc adi\<close>, each label followed by a tab, and a
  newline, followed by one line per row: its seven fields, each followed by a tab, then a
  newline.
\<close>

theorem output_format:
  assumes "process_chicago F cf vf af = Inr (pf, ff)"
  shows "ff = ''id'' @ [TAB] @ ''name'' @ [TAB] @ ''lat'' @ [TAB] @ ''lon'' @ [TAB] @ ''cap'' @ [TAB, NL]
       \<and> (\<exists>rows. chicago_rows F cf vf af = Inr rows
            \<and> pf = ''id'' @ [TAB] @ ''name'' @ [TAB] @ ''lat'' @ [TAB] @ ''lon'' @ [TAB] @ ''pop'' @ [TAB]
                    @ ''vacc'' @ [TAB] @ ''adi'' @ [TAB, NL]
                    @ concat (map (\<lambda>(i, zc, r).
                        concat (map (\<lambda>field. field @ [TAB])
                          [str_int (int i), str_int zc, str_pyval F (slot_lat r),
                           str_pyval F (slot_lon r), str_int (slot_pop r), str_int (slot_vacc r),
                           str_pyval F (slot_adi r)]) @ [NL]) rows))"
proof -
  from assms obtain rows where rows: "chicago_rows F cf vf af = Inr rows"
    and pf: "pf = POP_HEADER @ concat (map (pop_line F) rows)" and ff: "ff = FAC_HEADER"
    by (auto simp: process_chicago_def andthen_Inr_iff)
  have "pop_line F = (\<lambda>(i, zc, r).
                        concat (map (\<lambda>field. field @ [TAB])
                          [str_int (int i), str_int zc, str_pyval F (slot_lat r),
                           str_pyval F (slot_lon r), str_int (slot_pop r), str_int (slot_vacc r),
                           str_pyval F (slot_adi r)]) @ [NL])"
    by (auto simp: pop_line_def items_def fun_eq_iff)
  with rows pf ff show ?thesis
    by (simp add: POP_HEADER_def FAC_HEADER_def)
qed

theorem output_format_witness:
  "process_chicago dec_ops sample_cases sample_vacc sample_adi =
     Inr (''id'' @ [TAB] @ ''name'' @ [TAB] @ ''lat'' @ [TAB] @ ''lon'' @ [TAB] @ ''pop'' @ [TAB]
            @ ''vacc'' @ [TAB] @ ''adi'' @ [TAB, NL]
            @ ''0'' @ [TAB] @ ''60601'' @ [TAB] @ ''41.89'' @ [TAB] @ ''-87.61'' @ [TAB]
            @ ''25'' @ [TAB] @ ''150'' @ [TAB] @ ''37.5'' @ [TAB, NL]
            @ ''1'' @ [TAB] @ ''60602'' @ [TAB] @ ''41.88'' @ [TAB] @ ''-87.63'' @ [TAB]
            @ ''20'' @ [TAB] @ ''0'' @ [TAB] @ ''0'' @ [TAB, NL],
          ''id'' @ [TAB] @ ''name'' @ [TAB] @ ''lat'' @ [TAB] @ ''lon'' @ [TAB] @ ''cap'' @ [TAB, NL])
   \<and> (\<exists>rows. chicago_rows dec_ops sample_cases sample_vacc sample_adi = Inr rows
         \<and> ''id'' @ [TAB] @ ''name'' @ [TAB] @ ''lat'' @ [TAB] @ ''lon'' @ [TAB] @ ''pop'' @ [TAB]
            @ ''vacc'' @ [TAB] @ ''adi'' @ [TAB, NL]
            @ ''0'' @ [TAB] @ ''60601'' @ [TAB] @ ''41.89'' @ [TAB] @ ''-87.61'' @ [TAB]
            @ ''25'' @ [TAB] @ ''150'' @ [TAB] @ ''37.5'' @ [TAB, NL]
            @ ''1'' @ [TAB] @ ''60602'' @ [TAB] @ ''41.88'' @ [TAB] @ ''-87.63'' @ [TAB]
            @ ''20'' @ [TAB] @ ''0'' @ [TAB] @ ''0'' @ [TAB, NL]
          = ''id'' @ [TAB] @ ''name'' @ [TAB] @ ''lat'' @ [TAB] @ ''lon'' @ [TAB] @ ''pop'' @ [TAB]
                    @ ''vacc'' @ [TAB] @ ''adi'' @ [TAB, NL]
                    @ concat (map (\<lambda>(i, zc, r).
                        concat (map (\<lambda>field. field @ [TAB])
                          [str_int (int i), str_int zc, str_pyval dec_ops (slot_lat r),
                           str_pyval dec_ops (slot_lon r), str_int (slot_pop r), str_int (slot_vacc r),
                           str_pyval dec_ops (slot_adi r)]) @ [NL]) rows))"
proof -
  have run: "process_chicago dec_ops sample_cases sample_vacc sample_adi =
     Inr (''id'' @ [TAB] @ ''name'' @ [TAB] @ ''lat'' @ [TAB] @ ''lon'' @ [TAB] @ ''pop'' @ [TAB]
            @ ''vacc'' @ [TAB] @ ''adi'' @ [TAB, NL]
            @ ''0'' @ [TAB] @ ''60601'' @ [TAB] @ ''41.89'' @ [TAB] @ ''-87.61'' @ [TAB]
            @ ''25'' @ [TAB] @ ''150'' @ [TAB] @ ''37.5'' @ [TAB, NL]
            @ ''1'' @ [TAB] @ ''60602'' @ [TAB] @ ''41.88'' @ [TAB] @ ''-87.63'' @ [TAB]
            @ ''20'' @ [TAB] @ ''0'' @ [TAB] @ ''0'' @ [TAB, NL],
          ''id'' @ [TAB] @ ''name'' @ [TAB] @ ''lat'' @ [TAB] @ ''lon'' @ [TAB] @ ''cap'' @ [TAB, NL])"
    by code_simp
  from output_format[OF run] run show ?thesis by blast
qed

text \<open>
  C10. When \<open>process_chicago\<close> returns, the population file is the header followed by one
  line per code of the case file, and the \<open>lat\<close> and \<open>lon\<close> columns of a line (the third
  and fourth fields) are the texts of the two floats that \<open>point_to_coords\<close> returns on
  the last column of the last case row of that code. The example after the theorem runs
  the sample files in both orders: the coordinates written for 60601 differ, while its
  \<open>pop\<close> column does not.
\<close>

theorem coords_of_last_row:
  assumes "process_chicago F cf vf af = Inr (pf, ff)"
  shows "\<exists>rows :: (nat \<times> int \<times> 'f poprec) list. pf = ''id'' @ [TAB] @ ''name'' @ [TAB] @ ''lat'' @ [TAB] @ ''lon'' @ [TAB] @ ''pop'' @ [TAB]
         @ ''vacc'' @ [TAB] @ ''adi'' @ [TAB, NL]
         @ concat (map (\<lambda>(i, zc, r).
             concat (map (\<lambda>field. field @ [TAB])
               [str_int (int i), str_int zc, str_pyval F (slot_lat r),
                str_pyval F (slot_lon r), str_int (slot_pop r), str_int (slot_vacc r),
                str_pyval F (slot_adi r)]) @ [NL]) rows)
       \<and> set (map (\<lambda>(i, zc, r). zc) rows) = set (case_codes cf)
       \<and> (\<forall>(i, zc, r)\<in>set rows. rows_of zc cf \<noteq> [] \<and>
             (\<exists>la lo. case_coords F (last (rows_of zc cf)) = Inr (la, lo)
                \<and> slot_lat r = PFloat la \<and> slot_lon r = PFloat lo))"
proof -
  from process_chicago_Inr[OF assms] obtain rows where
    rows: "chicago_rows F cf vf af = Inr rows" and
    pf: "pf = ''id'' @ [TAB] @ ''name'' @ [TAB] @ ''lat'' @ [TAB] @ ''lon'' @ [TAB] @ ''pop'' @ [TAB]
           @ ''vacc'' @ [TAB] @ ''adi'' @ [TAB, NL]
           @ concat (map (\<lambda>(i, zc, r).
               concat (map (\<lambda>field. field @ [TAB])
                 [str_int (int i), str_int zc, str_pyval F (slot_lat r),
                  str_pyval F (slot_lon r), str_int (slot_pop r), str_int (slot_vacc r),
                  str_pyval F (slot_adi r)]) @ [NL]) rows)"
    by blast
  from chicago_rows_Inr[OF rows] have
    codes: "map (\<lambda>row. fst (snd row)) rows = sorted_list_of_set (set (case_codes cf))"
    and ids: "map fst rows = [0..<length rows]" by blast+
  from codes have keys: "set (map (\<lambda>(i, zc, r). zc) rows) = set (case_codes cf)"
    by (simp add: row_code_proj)
  have vals: "\<forall>(i, zc, r)\<in>set rows. rows_of zc cf \<noteq> [] \<and>
             (\<exists>la lo. case_coords F (last (rows_of zc cf)) = Inr (la, lo)
                \<and> slot_lat r = PFloat la \<and> slot_lon r = PFloat lo)"
    using chicago_rows_row(1,6)[OF rows] by (auto simp: rows_of_empty_iff)
  show ?thesis by (rule exI[of _ rows]) (rule conjI[OF pf conjI[OF keys vals]])
qed

theorem coords_of_last_row_witness:
  "process_chicago dec_ops sample_cases sample_vacc sample_adi = Inr (sample_pop_text, sample_fac_text)
   \<and> last (rows_of 60601 sample_cases)
       = ''60601,11,a,b,c,d,e,f,g,h,i,j,k,l,m,n,o,p,25,r,POINT (-87.61 41.89)'' @ [NL]
   \<and> case_coords dec_ops (last (rows_of 60601 sample_cases))
       = Inr ((False, 4189, 2), (True, 8761, 2))
   \<and> float_str dec_ops (False, 4189, 2) = ''41.89''
   \<and> float_str dec_ops (True, 8761, 2) = ''-87.61''
   \<and> (\<exists>rows :: (nat \<times> int \<times> dec poprec) list. sample_pop_text = ''id'' @ [TAB] @ ''name'' @ [TAB] @ ''lat'' @ [TAB] @ ''lon'' @ [TAB] @ ''pop'' @ [TAB]
          @ ''vacc'' @ [TAB] @ ''adi'' @ [TAB, NL]
          @ concat (map (\<lambda>(i, zc, r).
              concat (map (\<lambda>field. field @ [TAB])
                [str_int (int i), str_int zc, str_pyval dec_ops (slot_lat r),
                 str_pyval dec_ops (slot_lon r), str_int (slot_pop r), str_int (slot_vacc r),
                 str_pyval dec_ops (slot_adi r)]) @ [NL]) rows)
        \<and> set (map (\<lambda>(i, zc, r). zc) rows) = set (case_codes sample_cases)
        \<and> (\<forall>(i, zc, r)\<in>set rows. rows_of zc sample_cases \<noteq> [] \<and>
              (\<exists>la lo. case_coords dec_ops (last (rows_of zc sample_cases)) = Inr (la, lo)
                 \<and> slot_lat r = PFloat la \<and> slot_lon r = PFloat lo)))
   \<and> mset (rev sample_cases) = mset sample_cases
   \<and> last (rows_of 60601 (rev sample_cases))
       = ''60601,10,a,b,c,d,e,f,g,h,i,j,k,l,m,n,o,p,18,r,POINT (-87.62 41.88)'' @ [NL]
   \<and> process_chicago dec_ops (rev sample_cases) sample_vacc sample_adi =
       Inr (''id'' @ [TAB] @ ''name'' @ [TAB] @ ''lat'' @ [TAB] @ ''lon'' @ [TAB] @ ''pop'' @ [TAB]
              @ ''vacc'' @ [TAB] @ ''adi'' @ [TAB, NL]
              @ ''0'' @ [TAB] @ ''60601'' @ [TAB] @ ''41.88'' @ [TAB] @ ''-87.62'' @ [TAB]
              @ ''25'' @ [TAB] @ ''150'' @ [TAB] @ ''37.5'' @ [TAB, NL]
              @ ''1'' @ [TAB] @ ''60602'' @ [TAB] @ ''41.88'' @ [TAB] @ ''-87.63'' @ [TAB]
              @ ''20'' @ [TAB] @ ''0'' @ [TAB] @ ''0'' @ [TAB, NL],
            sample_fac_text)"
proof -
  have a: "last (rows_of 60601 sample_cases)
       = ''60601,11,a,b,c,d,e,f,g,h,i,j,k,l,m,n,o,p,25,r,POINT (-87.61 41.89)'' @ [NL]"
    by code_simp
  have b: "case_coords dec_ops (last (rows_of 60601 sample_cases))
       = Inr ((False, 4189, 2), (True, 8761, 2))"
    by code_simp
  have c1: "float_str dec_ops (False, 4189, 2) = ''41.89''" by code_simp
  have c2: "float_str dec_ops (True, 8761, 2) = ''-87.61''" by code_simp
  note e = coords_of_last_row[OF sample_text_run]
  have f: "mset (rev sample_cases) = mset sample_cases" by simp
  have g: "last (rows_of 60601 (rev sample_cases))
       = ''60601,10,a,b,c,d,e,f,g,h,i,j,k,l,m,n,o,p,18,r,POINT (-87.62 41.88)'' @ [NL]"
    by code_simp
  have h: "process_chicago dec_ops (rev sample_cases) sample_vacc sample_adi =
       Inr (''id'' @ [TAB] @ ''name'' @ [TAB] @ ''lat'' @ [TAB] @ ''lon'' @ [TAB] @ ''pop'' @ [TAB]
              @ ''vacc'' @ [TAB] @ ''adi'' @ [TAB, NL]
              @ ''0'' @ [TAB] @ ''60601'' @ [TAB] @ ''41.88'' @ [TAB] @ ''-87.62'' @ [TAB]
              @ ''25'' @ [TAB] @ ''150'' @ [TAB] @ ''37.5'' @ [TAB, NL]
              @ ''1'' @ [TAB] @ ''60602'' @ [TAB] @ ''41.88'' @ [TAB] @ ''-87.63'' @ [TAB]
              @ ''20'' @ [TAB] @ ''0'' @ [TAB] @ ''0'' @ [TAB, NL],
            sample_fac_text)"
    by code_simp
  show ?thesis
    by (rule conjI[OF sample_text_run conjI[OF a conjI[OF b conjI[OF c1 conjI[OF c2
          conjI[OF e conjI[OF f conjI[OF g h]]]]]]]])
qed

end
